theory Spec2Isabelle
  imports Main "HOL-Library.Word" "HOL-Library.AList"
begin

unbundle bit_operations_syntax

section \<open>The address index of blockchain/indexers/addrindex.go\<close>

text \<open>
  Conventions of the embedding.
  \<^item> A byte slice is a list of \<open>8 word\<close>. A nil slice and an empty slice both have
    length 0 in Go; where the code tells them apart (\<open>levelData == nil\<close>) the model
    uses \<open>option\<close>, with \<open>None\<close> for nil.
  \<^item> The bucket (\<open>internalBucket\<close>: Get, Put, Delete) is a map from key bytes to value
    bytes. Put and Delete of the in-memory map always succeed, so the database errors the
    Go code passes through have no branch here.
  \<^item> \<open>uint32\<close> is \<open>32 word\<close>. A \<open>uint8\<close> level is a \<open>nat\<close> with the wrap-around
    \<open>mod 256\<close> written at every increment and decrement. Go's \<open>int\<close> is \<open>int\<close>, with
    the 64-bit wrap-around \<open>s64\<close> written where a value is doubled in a loop; every other
    \<open>int\<close> of the code is bounded by the length of a slice.
  \<^item> A loop that the code may run forever is a \<open>partial_function\<close> in the option monad:
    \<open>None\<close> is "does not return".
\<close>

type_synonym byte = "8 word"
type_synonym bytes = "byte list"
type_synonym bucket = "bytes \<rightharpoonup> bytes"

datatype error =
    ErrDeserialize string
  | ErrCorruption bytes error
  | ErrAssert bytes int
  | ErrPanic string
  | ErrUnsupportedAddressType
  | ErrOther string

subsection \<open>Constants\<close>

definition level0MaxEntries :: nat where
  "level0MaxEntries = 8"

definition addrKeySize :: nat where
  "addrKeySize = 1 + 20"

definition levelKeySize :: nat where
  "levelKeySize = addrKeySize + 1"

definition levelOffset :: nat where
  "levelOffset = levelKeySize - 1"

text \<open>
  Modelled from the spec: \<open>txEntrySize\<close> is declared in another file of the package; the
  spec and the format comment of addrindex.go give 16 bytes per entry
  (four \<open>uint32\<close> fields).
\<close>

definition txEntrySize :: nat where
  "txEntrySize = 16"

text \<open>Two's complement wrap-around of a 64-bit \<open>int\<close>.\<close>

definition s64 :: "int \<Rightarrow> int" where
  "s64 x = (x + 2 ^ 63) mod 2 ^ 64 - 2 ^ 63"

subsection \<open>Entry codec\<close>

text \<open>
  Modelled from the spec: \<open>byteOrder\<close> is declared in another file of the package; the
  spec gives big-endian. \<open>PutUint32\<close> writes and \<open>Uint32\<close> reads four bytes, most
  significant first.
\<close>

definition PutUint32 :: "32 word \<Rightarrow> bytes" where
  "PutUint32 v = [ucast (drop_bit 24 v), ucast (drop_bit 16 v), ucast (drop_bit 8 v), ucast v]"

definition Uint32 :: "bytes \<Rightarrow> 32 word" where
  "Uint32 b = push_bit 24 (ucast (b ! 0)) OR push_bit 16 (ucast (b ! 1))
              OR push_bit 8 (ucast (b ! 2)) OR ucast (b ! 3)"

record TxLoc =
  TxStart :: int
  TxLen :: int

record BlockRegion =
  Hash :: bytes
  Offset :: "32 word"
  Len :: "32 word"

record TxIndexEntry =
  BlockRegion :: BlockRegion
  BlockIndex :: "32 word"

definition serializeAddrIndexEntry :: "32 word \<Rightarrow> TxLoc \<Rightarrow> 32 word \<Rightarrow> bytes" where
  "serializeAddrIndexEntry blockID txLoc blockIndex =
     PutUint32 blockID @ PutUint32 (word_of_int (TxStart txLoc))
     @ PutUint32 (word_of_int (TxLen txLoc)) @ PutUint32 blockIndex"

text \<open>
  \<open>deserializeAddrIndexEntry\<close> fills the entry it is given; the model returns the filled
  entry. \<open>fetchBlockHash\<close> is the caller's callback from a serialized block ID to a hash.
\<close>

definition deserializeAddrIndexEntry ::
  "bytes \<Rightarrow> (bytes \<Rightarrow> error + bytes) \<Rightarrow> error + TxIndexEntry" where
  "deserializeAddrIndexEntry serialized fetchBlockHash =
     (if length serialized < txEntrySize then Inl (ErrDeserialize ''unexpected end of data'')
      else case fetchBlockHash (take 4 serialized) of
             Inl err \<Rightarrow> Inl err
           | Inr hash \<Rightarrow>
               Inr \<lparr>BlockRegion = \<lparr>Hash = hash,
                                     Offset = Uint32 (take 4 (drop 4 serialized)),
                                     Len = Uint32 (take 4 (drop 8 serialized))\<rparr>,
                    BlockIndex = Uint32 (take 4 (drop 12 serialized))\<rparr>)"

fun isDeserializeErr :: "error \<Rightarrow> bool" where
  "isDeserializeErr (ErrDeserialize _) = True"
| "isDeserializeErr _ = False"

subsection \<open>Keys and the bucket\<close>

text \<open>
  \<open>keyForLevel\<close>: a zeroed array of 22 bytes, the address key copied to its front, the
  level stored in the last byte.
\<close>

definition keyForLevel :: "bytes \<Rightarrow> nat \<Rightarrow> bytes" where
  "keyForLevel addrKey level =
     (take levelKeySize (take addrKeySize addrKey @ replicate levelKeySize 0))
       [levelOffset := word_of_nat level]"

definition bGet :: "bucket \<Rightarrow> bytes \<Rightarrow> bytes option" where
  "bGet b k = b k"

definition bPut :: "bucket \<Rightarrow> bytes \<Rightarrow> bytes \<Rightarrow> bucket" where
  "bPut b k v = b(k \<mapsto> v)"

definition bDelete :: "bucket \<Rightarrow> bytes \<Rightarrow> bucket" where
  "bDelete b k = b(k := None)"

text \<open>The bytes of a possibly nil slice.\<close>

fun slice :: "bytes option \<Rightarrow> bytes" where
  "slice None = []"
| "slice (Some d) = d"

subsection \<open>Insert: dbPutAddrIndexEntry\<close>

text \<open>
  The inner loop of the cascade: for \<open>mergeLevel\<close> from \<open>curLevel - 1\<close> down to 1, store
  under \<open>mergeLevel\<close> what the bucket holds under \<open>mergeLevel - 1\<close>.
\<close>

fun moveLevelsUp :: "bucket \<Rightarrow> bytes \<Rightarrow> nat \<Rightarrow> bucket" where
  "moveLevelsUp b addrKey 0 = b"
| "moveLevelsUp b addrKey (Suc m) =
     moveLevelsUp (bPut b (keyForLevel addrKey (Suc m)) (slice (bGet b (keyForLevel addrKey m))))
       addrKey m"

text \<open>
  The outer loop, entered with the level and the byte capacity of the previous iteration.
  It returns the bucket after the merge and the moves, before the final Put to level 0.
\<close>

partial_function (option) mergeLevels ::
  "bucket \<Rightarrow> bytes \<Rightarrow> nat \<Rightarrow> int \<Rightarrow> bytes \<Rightarrow> bucket option" where
  "mergeLevels b addrKey curLevel maxLevelBytes prevLevelData =
     (if int (length (slice (bGet b (keyForLevel addrKey ((curLevel + 1) mod 256)))))
           = s64 (maxLevelBytes * 2)
      then mergeLevels b addrKey ((curLevel + 1) mod 256) (s64 (maxLevelBytes * 2))
             (slice (bGet b (keyForLevel addrKey ((curLevel + 1) mod 256))))
      else Some (moveLevelsUp
             (bPut b (keyForLevel addrKey ((curLevel + 1) mod 256))
                (if length (slice (bGet b (keyForLevel addrKey ((curLevel + 1) mod 256)))) > 0
                 then slice (bGet b (keyForLevel addrKey ((curLevel + 1) mod 256))) @ prevLevelData
                 else prevLevelData))
             addrKey (((curLevel + 1) mod 256 + 255) mod 256)))"

declare mergeLevels.simps [code]

definition dbPutAddrIndexEntry ::
  "bucket \<Rightarrow> bytes \<Rightarrow> 32 word \<Rightarrow> TxLoc \<Rightarrow> 32 word \<Rightarrow> bucket option" where
  "dbPutAddrIndexEntry b addrKey blockID txLoc blockIndex =
     (let maxLevelBytes = int (level0MaxEntries * txEntrySize);
          newData = serializeAddrIndexEntry blockID txLoc blockIndex;
          level0Key = keyForLevel addrKey 0;
          level0Data = slice (bGet b level0Key)
      in if int (length level0Data + length newData) \<le> maxLevelBytes
         then Some (bPut b level0Key
                (if length level0Data > 0 then level0Data @ newData else newData))
         else case mergeLevels b addrKey 0 maxLevelBytes level0Data of
                None \<Rightarrow> None
              | Some b' \<Rightarrow> Some (bPut b' level0Key newData))"

subsection \<open>Fetch: dbFetchAddrIndexEntries\<close>

text \<open>
  The loading loop. \<open>limit\<close> is \<open>int(numToSkip+numRequested)*txEntrySize\<close>; each level
  that exists is prepended to \<open>serialized\<close>. The loop stops at the first level whose key
  is absent, or, when \<open>reverse\<close> is set, as soon as \<open>limit\<close> bytes are loaded.
\<close>

partial_function (option) loadLevels ::
  "bucket \<Rightarrow> bytes \<Rightarrow> bool \<Rightarrow> int \<Rightarrow> nat \<Rightarrow> bytes \<Rightarrow> bytes option" where
  "loadLevels b addrKey reverse limit level serialized =
     (if \<not> reverse \<or> int (length serialized) < limit
      then (case bGet b (keyForLevel addrKey level) of
              None \<Rightarrow> Some serialized
            | Some levelData \<Rightarrow>
                loadLevels b addrKey reverse limit ((level + 1) mod 256) (levelData @ serialized))
      else Some serialized)"

declare loadLevels.simps [code]

text \<open>
  The decoding loop, over the indices \<open>i = 0, ..., numToLoad - 1\<close>. The offset is computed
  in \<open>uint32\<close>. Slicing \<open>serialized[offset:]\<close> beyond the length panics in Go.
\<close>

fun decodeEntries ::
  "bytes \<Rightarrow> bytes \<Rightarrow> (bytes \<Rightarrow> error + bytes) \<Rightarrow> bool \<Rightarrow> 32 word \<Rightarrow> 32 word \<Rightarrow> nat list
   \<Rightarrow> error + TxIndexEntry list" where
  "decodeEntries addrKey serialized fetchBlockHash reverse numEntries numToSkip [] = Inr []"
| "decodeEntries addrKey serialized fetchBlockHash reverse numEntries numToSkip (i # is) =
     (let offset = (if reverse
                    then (numEntries - numToSkip - word_of_nat i - 1) * word_of_nat txEntrySize
                    else (numToSkip + word_of_nat i) * word_of_nat txEntrySize)
      in if unat offset > length serialized then Inl (ErrPanic ''slice bounds out of range'')
         else case deserializeAddrIndexEntry (drop (unat offset) serialized) fetchBlockHash of
                Inl err \<Rightarrow> Inl (if isDeserializeErr err then ErrCorruption addrKey err else err)
              | Inr entry \<Rightarrow>
                  (case decodeEntries addrKey serialized fetchBlockHash reverse numEntries
                          numToSkip is of
                     Inl err \<Rightarrow> Inl err
                   | Inr entries \<Rightarrow> Inr (entry # entries)))"

definition dbFetchAddrIndexEntries ::
  "bucket \<Rightarrow> bytes \<Rightarrow> 32 word \<Rightarrow> 32 word \<Rightarrow> bool \<Rightarrow> (bytes \<Rightarrow> error + bytes)
   \<Rightarrow> (error + TxIndexEntry list \<times> 32 word) option" where
  "dbFetchAddrIndexEntries b addrKey numToSkip numRequested reverse fetchBlockHash =
     (case loadLevels b addrKey reverse
             (uint (numToSkip + numRequested) * int txEntrySize) 0 [] of
        None \<Rightarrow> None
      | Some serialized \<Rightarrow>
          Some (let numEntries = (word_of_nat (length serialized div txEntrySize) :: 32 word)
                in if numToSkip \<ge> numEntries then Inr ([], numEntries)
                   else if numRequested = 0 then Inr ([], numToSkip)
                   else let numToLoad = (if numEntries - numToSkip > numRequested
                                         then numRequested else numEntries - numToSkip)
                        in case decodeEntries addrKey serialized fetchBlockHash reverse
                                  numEntries numToSkip [0..<unat numToLoad] of
                             Inl err \<Rightarrow> Inl err
                           | Inr results \<Rightarrow> Inr (results, numToSkip)))"

subsection \<open>Delete: dbRemoveAddrIndexEntries\<close>

text \<open>
  \<open>minEntriesToReachLevel\<close> runs its loop body \<open>level\<close> times (the callers pass at most
  254) and \<open>maxEntriesForLevel\<close> doubles \<open>level\<close> times.
\<close>

fun minEntriesLoop :: "nat \<Rightarrow> int \<Rightarrow> int \<Rightarrow> int" where
  "minEntriesLoop 0 maxEntries minRequired = minRequired"
| "minEntriesLoop (Suc n) maxEntries minRequired =
     minEntriesLoop n (s64 (maxEntries * 2)) (s64 (minRequired + maxEntries))"

definition minEntriesToReachLevel :: "nat \<Rightarrow> int" where
  "minEntriesToReachLevel level = minEntriesLoop level (int level0MaxEntries) 1"

fun maxEntriesForLevel :: "nat \<Rightarrow> int" where
  "maxEntriesForLevel 0 = int level0MaxEntries"
| "maxEntriesForLevel (Suc l) = s64 (maxEntriesForLevel l * 2)"

text \<open>
  \<open>pendingUpdates\<close> is a Go map from level to bytes: an association list with one pair
  per key. Reading a missing key gives nil.
\<close>

type_synonym pending = "(nat \<times> bytes) list"

definition pendingAt :: "pending \<Rightarrow> nat \<Rightarrow> bytes" where
  "pendingAt p level = slice (map_of p level)"

definition applyPending :: "bucket \<Rightarrow> bytes \<Rightarrow> pending \<Rightarrow> bucket" where
  "applyPending b addrKey p =
     fold (\<lambda>(level, data) b'.
             if length data = 0 then bDelete b' (keyForLevel addrKey level)
             else bPut b' (keyForLevel addrKey level) data) p b"

text \<open>
  The first loop: remove whole levels from level 0 upwards, then trim the level where the
  count runs out. It returns the pending updates and \<open>highestLoadedLevel\<close>.
\<close>

partial_function (option) removeFromLevels ::
  "bucket \<Rightarrow> bytes \<Rightarrow> int \<Rightarrow> nat \<Rightarrow> int \<Rightarrow> pending \<Rightarrow> nat \<Rightarrow> (error + pending \<times> nat) option" where
  "removeFromLevels b addrKey count level numRemaining p highestLoadedLevel =
     (if numRemaining > 0
      then (if length (slice (bGet b (keyForLevel addrKey level))) = 0
            then Some (Inl (ErrAssert addrKey count))
            else if numRemaining
                      \<ge> int (length (slice (bGet b (keyForLevel addrKey level))) div txEntrySize)
            then removeFromLevels b addrKey count ((level + 1) mod 256)
                   (numRemaining
                      - int (length (slice (bGet b (keyForLevel addrKey level))) div txEntrySize))
                   (AList.update level [] p) level
            else Some (Inr (AList.update level
                   (take (nat (int (length (slice (bGet b (keyForLevel addrKey level))))
                               - numRemaining * int txEntrySize))
                      (slice (bGet b (keyForLevel addrKey level)))) p, level)))
      else Some (Inr (p, highestLoadedLevel)))"

declare removeFromLevels.simps [code]

text \<open>
  The second loop, from \<open>highestLoadedLevel\<close> down to 1: squash the remaining data into
  the lowest possible levels. It returns the pending updates, \<open>lowestEmptyLevel\<close> and the
  data left for level 0. A slice expression out of range panics in Go.
\<close>

fun squashLevels ::
  "nat \<Rightarrow> bytes \<Rightarrow> int \<Rightarrow> pending \<Rightarrow> nat \<Rightarrow> error + pending \<times> nat \<times> bytes" where
  "squashLevels 0 curLevelData curLevelMaxEntries p lowestEmptyLevel =
     Inr (p, lowestEmptyLevel, curLevelData)"
| "squashLevels (Suc l) curLevelData curLevelMaxEntries p lowestEmptyLevel =
     (let numEntries = int (length curLevelData div txEntrySize);
          prevLevelMaxEntries = curLevelMaxEntries div 2;
          minPrevRequired = minEntriesToReachLevel l
      in if numEntries < prevLevelMaxEntries + minPrevRequired
         then squashLevels l curLevelData prevLevelMaxEntries (AList.update (Suc l) [] p) (Suc l)
         else let offset = (if numEntries - curLevelMaxEntries \<ge> minPrevRequired
                            then curLevelMaxEntries * int txEntrySize
                            else prevLevelMaxEntries * int txEntrySize)
              in if offset < 0 \<or> offset > int (length curLevelData)
                 then Inl (ErrPanic ''slice bounds out of range'')
                 else squashLevels l (drop (nat offset) curLevelData) prevLevelMaxEntries
                        (AList.update (Suc l) (take (nat offset) curLevelData) p)
                        lowestEmptyLevel)"

text \<open>
  The inner loop of the backfill: while \<open>level > lowestEmptyLevel\<close>, keep the first half
  of the capacity at \<open>level\<close> and hand the rest to \<open>level - 1\<close>.
\<close>

fun halveLevels :: "nat \<Rightarrow> nat \<Rightarrow> bytes \<Rightarrow> int \<Rightarrow> pending \<Rightarrow> error + pending" where
  "halveLevels 0 lowestEmptyLevel levelData curLevelMaxEntries p = Inr p"
| "halveLevels (Suc l) lowestEmptyLevel levelData curLevelMaxEntries p =
     (if Suc l > lowestEmptyLevel
      then let offset = (curLevelMaxEntries div 2) * int txEntrySize
           in if offset < 0 \<or> offset > int (length levelData)
              then Inl (ErrPanic ''slice bounds out of range'')
              else halveLevels l lowestEmptyLevel (drop (nat offset) levelData)
                     (curLevelMaxEntries div 2)
                     (AList.update l (drop (nat offset) levelData)
                        (AList.update (Suc l) (take (nat offset) levelData) p))
      else Inr p)"

text \<open>
  The outer loop of the backfill: while the highest loaded level is empty, load the next
  level; a level that is not full moves down one level first.
\<close>

partial_function (option) backfillLevels ::
  "bucket \<Rightarrow> bytes \<Rightarrow> pending \<Rightarrow> nat \<Rightarrow> nat \<Rightarrow> (error + pending) option" where
  "backfillLevels b addrKey p highestLoadedLevel lowestEmptyLevel =
     (if length (pendingAt p highestLoadedLevel) = 0
      then (if length (slice (bGet b (keyForLevel addrKey ((highestLoadedLevel + 1) mod 256)))) = 0
            then Some (Inr p)
            else if int (length (slice (bGet b (keyForLevel addrKey
                            ((highestLoadedLevel + 1) mod 256)))) div txEntrySize)
                      \<noteq> maxEntriesForLevel ((highestLoadedLevel + 1) mod 256)
            then (case halveLevels (((highestLoadedLevel + 1) mod 256 + 255) mod 256)
                         lowestEmptyLevel
                         (slice (bGet b (keyForLevel addrKey ((highestLoadedLevel + 1) mod 256))))
                         (maxEntriesForLevel ((highestLoadedLevel + 1) mod 256) div 2)
                         (AList.update (((highestLoadedLevel + 1) mod 256 + 255) mod 256)
                            (slice (bGet b (keyForLevel addrKey
                               ((highestLoadedLevel + 1) mod 256))))
                            (AList.update ((highestLoadedLevel + 1) mod 256) [] p)) of
                    Inl err \<Rightarrow> Some (Inl err)
                  | Inr p' \<Rightarrow>
                      backfillLevels b addrKey p' ((highestLoadedLevel + 1) mod 256)
                        ((highestLoadedLevel + 1) mod 256))
            else (case halveLevels ((highestLoadedLevel + 1) mod 256) lowestEmptyLevel
                         (slice (bGet b (keyForLevel addrKey ((highestLoadedLevel + 1) mod 256))))
                         (maxEntriesForLevel ((highestLoadedLevel + 1) mod 256))
                         (AList.update ((highestLoadedLevel + 1) mod 256)
                            (slice (bGet b (keyForLevel addrKey
                               ((highestLoadedLevel + 1) mod 256)))) p) of
                    Inl err \<Rightarrow> Some (Inl err)
                  | Inr p' \<Rightarrow>
                      backfillLevels b addrKey p' ((highestLoadedLevel + 1) mod 256)
                        ((highestLoadedLevel + 1) mod 256)))
      else Some (Inr p))"

declare backfillLevels.simps [code]

definition dbRemoveAddrIndexEntries :: "bucket \<Rightarrow> bytes \<Rightarrow> int \<Rightarrow> (error + bucket) option" where
  "dbRemoveAddrIndexEntries b addrKey count =
     (if count \<le> 0 then Some (Inr b)
      else case removeFromLevels b addrKey count 0 count [] 0 of
             None \<Rightarrow> None
           | Some (Inl err) \<Rightarrow> Some (Inl err)
           | Some (Inr (p, highestLoadedLevel)) \<Rightarrow>
               if length (pendingAt p 0) \<noteq> 0 then Some (Inr (applyPending b addrKey p))
               else case squashLevels highestLoadedLevel (pendingAt p highestLoadedLevel)
                           (maxEntriesForLevel highestLoadedLevel) p 255 of
                      Inl err \<Rightarrow> Some (Inl err)
                    | Inr (p', lowestEmptyLevel, curLevelData) \<Rightarrow>
                        (case backfillLevels b addrKey (AList.update 0 curLevelData p')
                                highestLoadedLevel
                                (if length curLevelData = 0 then 0 else lowestEmptyLevel) of
                           None \<Rightarrow> None
                         | Some (Inl err) \<Rightarrow> Some (Inl err)
                         | Some (Inr p'') \<Rightarrow> Some (Inr (applyPending b addrKey p''))))"

subsection \<open>Address keys: addrToKey\<close>

text \<open>
  The address types of \<open>stdaddr\<close> that the switch of \<open>addrToKey\<close> tells apart, each with
  its hash160. \<open>AddressPubKey\<close> stands for the types that implement
  \<open>AddressPubKeyHasher\<close> and holds the address their \<open>AddressPubKeyHash\<close> returns.
  \<open>Hash160\<close> returns an array of 20 bytes.
\<close>

datatype address =
    AddressPubKeyHashEcdsaSecp256k1V0 bytes
  | AddressPubKeyHashEd25519V0 bytes
  | AddressPubKeyHashSchnorrSecp256k1V0 bytes
  | AddressScriptHashV0 bytes
  | AddressPubKey address
  | AddressOther

definition Hash160 :: "bytes \<Rightarrow> bytes" where
  "Hash160 h = take 20 (h @ replicate 20 0)"

definition addrKeyTypePubKeyHash :: byte where
  "addrKeyTypePubKeyHash = 0"

definition addrKeyTypePubKeyHashEdwards :: byte where
  "addrKeyTypePubKeyHashEdwards = 1"

definition addrKeyTypePubKeyHashSchnorr :: byte where
  "addrKeyTypePubKeyHashSchnorr = 2"

definition addrKeyTypeScriptHash :: byte where
  "addrKeyTypeScriptHash = 3"

fun addrToKeySwitch :: "address \<Rightarrow> error + bytes" where
  "addrToKeySwitch (AddressPubKeyHashEcdsaSecp256k1V0 h) = Inr (addrKeyTypePubKeyHash # Hash160 h)"
| "addrToKeySwitch (AddressPubKeyHashEd25519V0 h) = Inr (addrKeyTypePubKeyHashEdwards # Hash160 h)"
| "addrToKeySwitch (AddressPubKeyHashSchnorrSecp256k1V0 h) =
     Inr (addrKeyTypePubKeyHashSchnorr # Hash160 h)"
| "addrToKeySwitch (AddressScriptHashV0 h) = Inr (addrKeyTypeScriptHash # Hash160 h)"
| "addrToKeySwitch _ = Inl ErrUnsupportedAddressType"

definition addrToKey :: "address \<Rightarrow> error + bytes" where
  "addrToKey addr = addrToKeySwitch (case addr of AddressPubKey pkh \<Rightarrow> pkh | _ \<Rightarrow> addr)"

subsection \<open>Block indexer: indexPkScript and indexBlock\<close>

text \<open>
  Transactions and blocks, with the fields the indexer reads. The script and stake
  functions of other packages are parameters, collected in \<open>scriptEnv\<close>;
  \<open>ExtractPkScriptAddrs\<close> returns the script class, the addresses and the error.
  A \<open>PrevScripter\<close> maps an outpoint to a script version and script, if it has one.
\<close>

datatype scriptClass = NullDataTy | OtherTy

record TxOut =
  Version :: nat
  PkScript :: bytes

record TxIn =
  PreviousOutPoint :: bytes

record MsgTx =
  TxIn :: "TxIn list"
  TxOut :: "TxOut list"

record Tx =
  TxHash :: bytes
  MsgTx :: MsgTx

record Block =
  Transactions :: "Tx list"
  STransactions :: "Tx list"

record scriptEnv =
  ExtractPkScriptAddrs :: "nat \<Rightarrow> bytes \<Rightarrow> bool \<Rightarrow> scriptClass \<times> address list \<times> error option"
  AddrFromSStxPkScrCommitment :: "bytes \<Rightarrow> error + address"
  IsSSGen :: "MsgTx \<Rightarrow> bool \<Rightarrow> bool"
  IsTreasuryBase :: "MsgTx \<Rightarrow> bool"
  IsTSpend :: "MsgTx \<Rightarrow> bool"
  IsSStx :: "MsgTx \<Rightarrow> bool"

type_synonym PrevScripter = "bytes \<rightharpoonup> nat \<times> bytes"

type_synonym writeIndexData = "bytes \<rightharpoonup> nat list"

text \<open>The loop of \<open>indexPkScript\<close> over the extracted addresses.\<close>

fun indexAddrs :: "writeIndexData \<Rightarrow> address list \<Rightarrow> nat \<Rightarrow> writeIndexData" where
  "indexAddrs data [] txIdx = data"
| "indexAddrs data (addr # addrs) txIdx =
     (case addrToKey addr of
        Inl err \<Rightarrow> indexAddrs data addrs txIdx
      | Inr addrKey \<Rightarrow>
          (let indexedTxns = (case data addrKey of None \<Rightarrow> [] | Some txns \<Rightarrow> txns)
           in if length indexedTxns > 0 \<and> last indexedTxns = txIdx
              then indexAddrs data addrs txIdx
              else indexAddrs (data(addrKey \<mapsto> indexedTxns @ [txIdx])) addrs txIdx))"

definition indexPkScript ::
  "scriptEnv \<Rightarrow> writeIndexData \<Rightarrow> nat \<Rightarrow> bytes \<Rightarrow> nat \<Rightarrow> bool \<Rightarrow> bool \<Rightarrow> writeIndexData" where
  "indexPkScript env data scriptVersion pkScript txIdx isSStx isTreasuryEnabled =
     (case ExtractPkScriptAddrs env scriptVersion pkScript isTreasuryEnabled of
        (class, addrs, err) \<Rightarrow>
          if err \<noteq> None then data
          else if isSStx \<and> class = NullDataTy
          then (case AddrFromSStxPkScrCommitment env pkScript of
                  Inl err' \<Rightarrow> data
                | Inr addr \<Rightarrow> indexAddrs data (addrs @ [addr]) txIdx)
          else indexAddrs data addrs txIdx)"

text \<open>The loop over the inputs of a regular transaction, and the loop over outputs.\<close>

definition indexInputs ::
  "scriptEnv \<Rightarrow> PrevScripter \<Rightarrow> bool \<Rightarrow> nat \<Rightarrow> TxIn list \<Rightarrow> writeIndexData \<Rightarrow> writeIndexData" where
  "indexInputs env prevScripts isTreasuryEnabled txIdx ins data =
     fold (\<lambda>txIn data'.
             case prevScripts (PreviousOutPoint txIn) of
               None \<Rightarrow> data'
             | Some (version, pkScript) \<Rightarrow>
                 indexPkScript env data' version pkScript txIdx False isTreasuryEnabled)
       ins data"

definition indexOutputs ::
  "scriptEnv \<Rightarrow> bool \<Rightarrow> nat \<Rightarrow> bool \<Rightarrow> TxOut list \<Rightarrow> writeIndexData \<Rightarrow> writeIndexData" where
  "indexOutputs env isTreasuryEnabled txIdx isSStx outs data =
     fold (\<lambda>txOut data'.
             indexPkScript env data' (Version txOut) (PkScript txOut) txIdx isSStx
               isTreasuryEnabled)
       outs data"

text \<open>
  The loop over the inputs of a stake transaction, with the index \<open>i\<close> of each input:
  the stakebase and the inputs of treasury transactions are skipped.
\<close>

definition indexStakeInputs ::
  "scriptEnv \<Rightarrow> PrevScripter \<Rightarrow> bool \<Rightarrow> nat \<Rightarrow> bool \<Rightarrow> bool \<Rightarrow> bool \<Rightarrow> TxIn list
   \<Rightarrow> writeIndexData \<Rightarrow> writeIndexData" where
  "indexStakeInputs env prevScripts isTreasuryEnabled thisTxOffset isSSGen isTreasuryBase
       isTSpend ins data =
     fold (\<lambda>(i, txIn) data'.
             if isSSGen \<and> i = 0 then data'
             else if isTreasuryBase \<or> isTSpend then data'
             else case prevScripts (PreviousOutPoint txIn) of
                    None \<Rightarrow> data'
                  | Some (version, pkScript) \<Rightarrow>
                      indexPkScript env data' version pkScript thisTxOffset False
                        isTreasuryEnabled)
       (List.enumerate 0 ins) data"

definition indexRegularTx ::
  "scriptEnv \<Rightarrow> PrevScripter \<Rightarrow> bool \<Rightarrow> nat \<times> Tx \<Rightarrow> writeIndexData \<Rightarrow> writeIndexData" where
  "indexRegularTx env prevScripts isTreasuryEnabled = (\<lambda>(txIdx, tx) data.
     indexOutputs env isTreasuryEnabled txIdx False (TxOut (MsgTx tx))
       (if txIdx \<noteq> 0
        then indexInputs env prevScripts isTreasuryEnabled txIdx (TxIn (MsgTx tx)) data
        else data))"

definition indexStakeTx ::
  "scriptEnv \<Rightarrow> PrevScripter \<Rightarrow> bool \<Rightarrow> nat \<Rightarrow> nat \<times> Tx \<Rightarrow> writeIndexData \<Rightarrow> writeIndexData" where
  "indexStakeTx env prevScripts isTreasuryEnabled numRegular = (\<lambda>(txIdx, tx) data.
     (let msgTx = MsgTx tx;
          thisTxOffset = txIdx + numRegular;
          isSSGen = IsSSGen env msgTx isTreasuryEnabled;
          isTreasuryBase = (isTreasuryEnabled \<and> \<not> isSSGen \<and> IsTreasuryBase env msgTx);
          isTSpend = (isTreasuryEnabled \<and> \<not> isTreasuryBase \<and> IsTSpend env msgTx)
      in indexOutputs env isTreasuryEnabled thisTxOffset (IsSStx env msgTx) (TxOut msgTx)
           (indexStakeInputs env prevScripts isTreasuryEnabled thisTxOffset isSSGen
              isTreasuryBase isTSpend (TxIn msgTx) data)))"

definition indexBlock ::
  "scriptEnv \<Rightarrow> writeIndexData \<Rightarrow> Block \<Rightarrow> PrevScripter \<Rightarrow> bool \<Rightarrow> writeIndexData" where
  "indexBlock env data block prevScripts isTreasuryEnabled =
     fold (indexStakeTx env prevScripts isTreasuryEnabled (length (Transactions block)))
       (List.enumerate 0 (STransactions block))
       (fold (indexRegularTx env prevScripts isTreasuryEnabled)
          (List.enumerate 0 (Transactions block)) data)"

subsection \<open>Unconfirmed mirror\<close>

text \<open>
  The two maps of \<open>AddrIndex\<close> that the unconfirmed functions use. The inner Go map of
  \<open>addrsByTx\<close> is a set of address keys; it is a list without repetitions here, so that
  the loop of \<open>RemoveUnconfirmedTx\<close> over it is a fold. The lock has no counterpart.
\<close>

record unconfirmed =
  txnsByAddr :: "bytes \<rightharpoonup> (bytes \<rightharpoonup> Tx)"
  addrsByTx :: "bytes \<rightharpoonup> bytes list"

definition NewAddrIndex :: unconfirmed where
  "NewAddrIndex = \<lparr>txnsByAddr = Map.empty, addrsByTx = Map.empty\<rparr>"

text \<open>The loop of \<open>indexUnconfirmedAddresses\<close> over the extracted addresses.\<close>

fun mapUnconfirmedAddrs :: "unconfirmed \<Rightarrow> address list \<Rightarrow> Tx \<Rightarrow> unconfirmed" where
  "mapUnconfirmedAddrs idx [] tx = idx"
| "mapUnconfirmedAddrs idx (addr # addrs) tx =
     (case addrToKey addr of
        Inl err \<Rightarrow> mapUnconfirmedAddrs idx addrs tx
      | Inr addrKey \<Rightarrow>
          mapUnconfirmedAddrs
            \<lparr>txnsByAddr = (txnsByAddr idx)(addrKey \<mapsto>
               (case txnsByAddr idx addrKey of None \<Rightarrow> Map.empty | Some entry \<Rightarrow> entry)
                 (TxHash tx \<mapsto> tx)),
             addrsByTx = (addrsByTx idx)(TxHash tx \<mapsto>
               List.insert addrKey
                 (case addrsByTx idx (TxHash tx) of None \<Rightarrow> [] | Some entry \<Rightarrow> entry))\<rparr>
            addrs tx)"

definition indexUnconfirmedAddresses ::
  "scriptEnv \<Rightarrow> unconfirmed \<Rightarrow> nat \<Rightarrow> bytes \<Rightarrow> Tx \<Rightarrow> bool \<Rightarrow> bool \<Rightarrow> unconfirmed" where
  "indexUnconfirmedAddresses env idx scriptVersion pkScript tx isSStx isTreasuryEnabled =
     (case ExtractPkScriptAddrs env scriptVersion pkScript isTreasuryEnabled of
        (class, addrs, err) \<Rightarrow>
          if isSStx \<and> class = NullDataTy
          then (case AddrFromSStxPkScrCommitment env pkScript of
                  Inl err' \<Rightarrow> idx
                | Inr addr \<Rightarrow> mapUnconfirmedAddrs idx (addrs @ [addr]) tx)
          else mapUnconfirmedAddrs idx addrs tx)"

definition AddUnconfirmedTx ::
  "scriptEnv \<Rightarrow> unconfirmed \<Rightarrow> Tx \<Rightarrow> PrevScripter \<Rightarrow> bool \<Rightarrow> unconfirmed" where
  "AddUnconfirmedTx env idx tx prevScripts isTreasuryEnabled =
     fold (\<lambda>txOut idx'.
             indexUnconfirmedAddresses env idx' (Version txOut) (PkScript txOut) tx
               (IsSStx env (MsgTx tx)) isTreasuryEnabled)
       (TxOut (MsgTx tx))
       (fold (\<lambda>(i, txIn) idx'.
                if i = 0 \<and> IsSSGen env (MsgTx tx) isTreasuryEnabled then idx'
                else case prevScripts (PreviousOutPoint txIn) of
                       None \<Rightarrow> idx'
                     | Some (version, pkScript) \<Rightarrow>
                         indexUnconfirmedAddresses env idx' version pkScript tx False
                           isTreasuryEnabled)
          (List.enumerate 0 (TxIn (MsgTx tx))) idx)"

text \<open>
  One iteration of the loop of \<open>RemoveUnconfirmedTx\<close>: delete the hash from the inner
  map of the address, then delete the address when its inner map has no entry left.
  Deleting from a missing inner map does nothing.
\<close>

definition removeAddrReference ::
  "bytes \<Rightarrow> bytes \<Rightarrow> (bytes \<rightharpoonup> (bytes \<rightharpoonup> Tx)) \<Rightarrow> (bytes \<rightharpoonup> (bytes \<rightharpoonup> Tx))" where
  "removeAddrReference hash addrKey m =
     (case m addrKey of
        None \<Rightarrow> m
      | Some entry \<Rightarrow>
          if entry(hash := None) = Map.empty then m(addrKey := None)
          else m(addrKey \<mapsto> entry(hash := None)))"

definition RemoveUnconfirmedTx :: "unconfirmed \<Rightarrow> bytes \<Rightarrow> unconfirmed" where
  "RemoveUnconfirmedTx idx hash =
     \<lparr>txnsByAddr = fold (removeAddrReference hash)
                      (case addrsByTx idx hash of None \<Rightarrow> [] | Some entry \<Rightarrow> entry)
                      (txnsByAddr idx),
      addrsByTx = (addrsByTx idx)(hash := None)\<rparr>"

section \<open>Properties\<close>

subsection \<open>Levels of an address\<close>

text \<open>
  \<open>levelEntries b a L\<close> is the number of whole entries stored at level \<open>L\<close> of address
  \<open>a\<close>; \<open>logicalData\<close> is the concatenation of the levels, highest level first, and
  \<open>totalEntries\<close> the number of entries in it.
\<close>

definition levelData :: "bucket \<Rightarrow> bytes \<Rightarrow> nat \<Rightarrow> bytes" where
  "levelData b a L = slice (bGet b (keyForLevel a L))"

definition levelEntries :: "bucket \<Rightarrow> bytes \<Rightarrow> nat \<Rightarrow> nat" where
  "levelEntries b a L = length (levelData b a L) div txEntrySize"

definition logicalData :: "bucket \<Rightarrow> bytes \<Rightarrow> bytes" where
  "logicalData b a = concat (rev (map (levelData b a) [0..<256]))"

definition totalEntries :: "bucket \<Rightarrow> bytes \<Rightarrow> nat" where
  "totalEntries b a = length (logicalData b a) div txEntrySize"

definition maxEntries :: "nat \<Rightarrow> nat" where
  "maxEntries L = level0MaxEntries * 2 ^ L"

text \<open>
  The level invariants that the code keeps: every stored level value is a non-empty
  sequence of whole entries; level 0 holds at most 8 entries; a level \<open>L \<ge> 1\<close> is
  empty, half full or full; below a populated level no level is empty.
\<close>

definition levelInvariants :: "bucket \<Rightarrow> bytes \<Rightarrow> bool" where
  "levelInvariants b a \<longleftrightarrow>
     (\<forall>L<256. case bGet b (keyForLevel a L) of
                 None \<Rightarrow> True
               | Some d \<Rightarrow> d \<noteq> [] \<and> txEntrySize dvd length d)
     \<and> levelEntries b a 0 \<le> maxEntries 0
     \<and> (\<forall>L<256. 1 \<le> L \<longrightarrow>
           levelEntries b a L = 0 \<or> levelEntries b a L = maxEntries L div 2
           \<or> levelEntries b a L = maxEntries L)
     \<and> (\<forall>L<256. \<forall>K<L. 0 < levelEntries b a L \<longrightarrow> 0 < levelEntries b a K)"

text \<open>The address has no key in the bucket.\<close>

definition noEntries :: "bucket \<Rightarrow> bytes \<Rightarrow> bool" where
  "noEntries b a \<longleftrightarrow> (\<forall>L<256. bGet b (keyForLevel a L) = None)"

text \<open>
  The address stores exactly the levels \<open>ls\<close>: level \<open>l\<close> holds \<open>ls ! l\<close>, and there is no
  key for a level from \<open>length ls\<close> on. \<open>wfLevels\<close> is the shape of the level invariants
  on such a list.
\<close>

definition storedLevels :: "bucket \<Rightarrow> bytes \<Rightarrow> bytes list \<Rightarrow> bool" where
  "storedLevels b a ls \<longleftrightarrow>
     length ls \<le> 256
     \<and> (\<forall>l<length ls. bGet b (keyForLevel a l) = Some (ls ! l))
     \<and> (\<forall>l<256. length ls \<le> l \<longrightarrow> bGet b (keyForLevel a l) = None)"

definition levelOk :: "nat \<Rightarrow> bytes \<Rightarrow> bool" where
  "levelOk l d \<longleftrightarrow>
     (if l = 0 then 0 < length d \<and> length d \<le> 128 \<and> 16 dvd length d
      else length d = 64 * 2 ^ l \<or> length d = 128 * 2 ^ l)"

definition wfLevels :: "bytes list \<Rightarrow> bool" where
  "wfLevels ls \<longleftrightarrow> (\<forall>l<length ls. levelOk l (ls ! l))"

text \<open>Keys of other addresses, or of no address: the operations on \<open>a\<close> leave them alone.\<close>

definition sameElsewhere :: "bucket \<Rightarrow> bucket \<Rightarrow> bytes \<Rightarrow> bool" where
  "sameElsewhere b b' a \<longleftrightarrow> (\<forall>k. (\<forall>l<256. k \<noteq> keyForLevel a l) \<longrightarrow> b' k = b k)"

subsection \<open>Sequences of operations\<close>

datatype indexOp = Append "32 word" TxLoc "32 word" | Remove int

fun applyOp :: "bucket \<Rightarrow> bytes \<Rightarrow> indexOp \<Rightarrow> (error + bucket) option" where
  "applyOp b a (Append blockID txLoc blockIndex) =
     (case dbPutAddrIndexEntry b a blockID txLoc blockIndex of
        None \<Rightarrow> None
      | Some b' \<Rightarrow> Some (Inr b'))"
| "applyOp b a (Remove count) = dbRemoveAddrIndexEntries b a count"

fun applyOps :: "bucket \<Rightarrow> bytes \<Rightarrow> indexOp list \<Rightarrow> (error + bucket) option" where
  "applyOps b a [] = Some (Inr b)"
| "applyOps b a (op # ops) =
     (case applyOp b a op of
        Some (Inr b') \<Rightarrow> applyOps b' a ops
      | r \<Rightarrow> r)"

text \<open>
  \<open>countsOk bound n ops\<close>: starting with \<open>n\<close> stored entries, no remove of \<open>ops\<close> asks
  for more entries than are stored then, and the number of stored entries stays below
  \<open>bound\<close>.
\<close>

fun countsOk :: "nat \<Rightarrow> nat \<Rightarrow> indexOp list \<Rightarrow> bool" where
  "countsOk bound n [] = True"
| "countsOk bound n (Append blockID txLoc blockIndex # ops) =
     (Suc n < bound \<and> countsOk bound (Suc n) ops)"
| "countsOk bound n (Remove count # ops) =
     (count \<le> int n \<and> countsOk bound (n - nat count) ops)"

text \<open>The entries \<open>e1, ..., en\<close> used in the concrete scenarios, and their appends.\<close>

definition seedEntry :: "nat \<Rightarrow> indexOp" where
  "seedEntry i = Append 1 \<lparr>TxStart = int i, TxLen = 1\<rparr> (word_of_nat i)"

definition seedBytes :: "nat \<Rightarrow> bytes" where
  "seedBytes i = serializeAddrIndexEntry 1 \<lparr>TxStart = int i, TxLen = 1\<rparr> (word_of_nat i)"

definition seedAddr :: bytes where
  "seedAddr = replicate 21 0"

definition sameHash :: "bytes \<Rightarrow> error + bytes" where
  "sameHash serializedID = Inr serializedID"

fun entryBytes :: "indexOp \<Rightarrow> bytes" where
  "entryBytes (Append blockID txLoc blockIndex) = serializeAddrIndexEntry blockID txLoc blockIndex"
| "entryBytes (Remove count) = []"

fun isAppend :: "indexOp \<Rightarrow> bool" where
  "isAppend (Append blockID txLoc blockIndex) = True"
| "isAppend (Remove count) = False"

text \<open>
  An entry to append, as the three arguments of \<open>dbPutAddrIndexEntry\<close>; its append;
  and the entry a fetch decodes from its bytes when the block hash of a serialized block
  ID \<open>s\<close> is \<open>hashOf s\<close>: the transaction location narrowed to \<open>uint32\<close>, as
  \<open>serializeAddrIndexEntry\<close> stored it.
\<close>

type_synonym addrEntry = "32 word \<times> TxLoc \<times> 32 word"

definition appendOp :: "addrEntry \<Rightarrow> indexOp" where
  "appendOp e = (case e of (blockID, txLoc, blockIndex) \<Rightarrow> Append blockID txLoc blockIndex)"

definition fetched :: "(bytes \<Rightarrow> bytes) \<Rightarrow> addrEntry \<Rightarrow> TxIndexEntry" where
  "fetched hashOf e =
     (case e of (blockID, txLoc, blockIndex) \<Rightarrow>
        \<lparr>BlockRegion = \<lparr>Hash = hashOf (PutUint32 blockID),
                         Offset = word_of_int (TxStart txLoc),
                         Len = word_of_int (TxLen txLoc)\<rparr>,
         BlockIndex = blockIndex\<rparr>)"

definition seedTriple :: "nat \<Rightarrow> addrEntry" where
  "seedTriple i = (1, \<lparr>TxStart = int i, TxLen = 1\<rparr>, word_of_nat i)"

text \<open>Reading a level off the result of a run; \<open>None\<close> when the run did not succeed.\<close>

fun levelAfter :: "(error + bucket) option \<Rightarrow> bytes \<Rightarrow> nat \<Rightarrow> bytes option" where
  "levelAfter (Some (Inr b)) a L = bGet b (keyForLevel a L)"
| "levelAfter _ a L = None"

fun entriesAfter :: "(error + bucket) option \<Rightarrow> bytes \<Rightarrow> nat \<Rightarrow> nat option" where
  "entriesAfter (Some (Inr b)) a L = Some (levelEntries b a L)"
| "entriesAfter _ a L = None"

text \<open>A fetch on the result of a run; \<open>None\<close> when the run did not succeed.\<close>

fun fetchAfter ::
  "(error + bucket) option \<Rightarrow> bytes \<Rightarrow> 32 word \<Rightarrow> 32 word \<Rightarrow> bool \<Rightarrow> (bytes \<Rightarrow> error + bytes)
   \<Rightarrow> (error + TxIndexEntry list \<times> 32 word) option" where
  "fetchAfter (Some (Inr b)) a numToSkip numRequested reverse fetchBlockHash =
     dbFetchAddrIndexEntries b a numToSkip numRequested reverse fetchBlockHash"
| "fetchAfter _ a numToSkip numRequested reverse fetchBlockHash = None"

text \<open>
  The pending updates of a removal, as the Go map holds them: one value per level, for
  levels below 256.
\<close>

definition pendOk :: "pending \<Rightarrow> bool" where
  "pendOk p \<longleftrightarrow> distinct (map fst p) \<and> (\<forall>l \<in> fst ` set p. l < 256)"

subsection \<open>The block indexer and the unconfirmed mirror\<close>

text \<open>
  \<open>ascendingBelow n data\<close>: every list of \<open>data\<close> is strictly ascending and holds no
  index above \<open>n\<close>.
\<close>

definition ascendingBelow :: "nat \<Rightarrow> writeIndexData \<Rightarrow> bool" where
  "ascendingBelow n data \<longleftrightarrow>
     (\<forall>addrKey txns. data addrKey = Some txns \<longrightarrow>
        sorted_wrt (<) txns \<and> (\<forall>txIdx \<in> set txns. txIdx \<le> n))"

text \<open>
  A script environment in which every script pays to the script hash that its bytes name,
  and a block of two regular transactions and one stake transaction, each with two
  outputs to the same script.
\<close>

definition seedEnv :: scriptEnv where
  "seedEnv = \<lparr>ExtractPkScriptAddrs = (\<lambda>version pkScript treasury.
                  (OtherTy, [AddressScriptHashV0 pkScript], None)),
              AddrFromSStxPkScrCommitment = (\<lambda>pkScript. Inl ErrUnsupportedAddressType),
              IsSSGen = (\<lambda>msgTx treasury. False),
              IsTreasuryBase = (\<lambda>msgTx. False),
              IsTSpend = (\<lambda>msgTx. False),
              IsSStx = (\<lambda>msgTx. False)\<rparr>"

definition seedTx :: "byte \<Rightarrow> Tx" where
  "seedTx n = \<lparr>TxHash = [n],
               MsgTx = \<lparr>TxIn = [],
                        TxOut = [\<lparr>Version = 0, PkScript = replicate 20 1\<rparr>,
                                 \<lparr>Version = 0, PkScript = replicate 20 1\<rparr>]\<rparr>\<rparr>"

definition seedBlock :: Block where
  "seedBlock = \<lparr>Transactions = [seedTx 0, seedTx 1], STransactions = [seedTx 2]\<rparr>"

text \<open>Sequences of calls on the unconfirmed mirror, and the two membership tests.\<close>

datatype mirrorOp = AddTx Tx PrevScripter bool | RemoveTx bytes

fun applyMirrorOp :: "scriptEnv \<Rightarrow> mirrorOp \<Rightarrow> unconfirmed \<Rightarrow> unconfirmed" where
  "applyMirrorOp env (AddTx tx prevScripts isTreasuryEnabled) idx =
     AddUnconfirmedTx env idx tx prevScripts isTreasuryEnabled"
| "applyMirrorOp env (RemoveTx hash) idx = RemoveUnconfirmedTx idx hash"

definition applyMirrorOps :: "scriptEnv \<Rightarrow> mirrorOp list \<Rightarrow> unconfirmed \<Rightarrow> unconfirmed" where
  "applyMirrorOps env ops idx = fold (applyMirrorOp env) ops idx"

definition hasTx :: "unconfirmed \<Rightarrow> bytes \<Rightarrow> bytes \<Rightarrow> bool" where
  "hasTx idx addrKey hash =
     (case txnsByAddr idx addrKey of None \<Rightarrow> False | Some entry \<Rightarrow> entry hash \<noteq> None)"

definition hasAddr :: "unconfirmed \<Rightarrow> bytes \<Rightarrow> bytes \<Rightarrow> bool" where
  "hasAddr idx hash addrKey =
     (case addrsByTx idx hash of None \<Rightarrow> False | Some entry \<Rightarrow> addrKey \<in> set entry)"

definition mirrorConsistent :: "unconfirmed \<Rightarrow> bool" where
  "mirrorConsistent idx \<longleftrightarrow>
     (\<forall>addrKey hash. hasTx idx addrKey hash = hasAddr idx hash addrKey)
     \<and> (\<forall>addrKey. txnsByAddr idx addrKey \<noteq> Some Map.empty)"

subsection \<open>Keys, the bucket and the append cascade\<close>

lemma length_keyForLevel: "length (keyForLevel a l) = 22"
  by (simp add: keyForLevel_def levelKeySize_def addrKeySize_def)

lemma keyForLevel_last: "keyForLevel a l ! 21 = word_of_nat l"
  by (simp add: keyForLevel_def levelKeySize_def addrKeySize_def levelOffset_def)

lemma keyForLevel_eq_iff [simp]:
  assumes "l < 256" "l' < 256"
  shows "(keyForLevel a l = keyForLevel a l') = (l = l')"
proof
  assume "keyForLevel a l = keyForLevel a l'"
  then have "keyForLevel a l ! 21 = keyForLevel a l' ! 21" by simp
  then have "(word_of_nat l :: 8 word) = word_of_nat l'" by (simp add: keyForLevel_last)
  then have "unat (word_of_nat l :: 8 word) = unat (word_of_nat l' :: 8 word)" by simp
  with assms show "l = l'" by (simp add: unat_of_nat)
qed simp

lemma bGet_bPut [simp]: "bGet (bPut b k v) k' = (if k' = k then Some v else bGet b k')"
  by (simp add: bGet_def bPut_def)

lemma bGet_bDelete [simp]: "bGet (bDelete b k) k' = (if k' = k then None else bGet b k')"
  by (simp add: bGet_def bDelete_def)

lemma s64_id: "- (2 ^ 63) \<le> x \<Longrightarrow> x < 2 ^ 63 \<Longrightarrow> s64 x = x"
  by (simp add: s64_def)

lemma pow2_le_int: "n \<le> m \<Longrightarrow> (2::int) ^ n \<le> 2 ^ m"
  by (rule power_increasing) simp_all

lemma s64_pow: "n \<le> 55 \<Longrightarrow> s64 (128 * 2 ^ n) = 128 * 2 ^ n"
proof -
  assume "n \<le> 55"
  then have "(2::int) ^ n \<le> 2 ^ 55" by (rule pow2_le_int)
  then have "(128::int) * 2 ^ n < 2 ^ 63" by simp
  moreover have "- (2 ^ 63) \<le> (128::int) * 2 ^ n" by (simp add: order_trans[of _ 0])
  ultimately show ?thesis by (rule s64_id[rotated])
qed

lemma moveLevelsUp_get:
  "n < 256 \<Longrightarrow> l < 256 \<Longrightarrow>
   bGet (moveLevelsUp b a n) (keyForLevel a l) =
     (if 1 \<le> l \<and> l \<le> n then Some (slice (bGet b (keyForLevel a (l - 1))))
      else bGet b (keyForLevel a l))"
proof (induction n arbitrary: b)
  case 0
  then show ?case by auto
next
  case (Suc n)
  then show ?case by (auto simp: le_Suc_eq)
qed

lemma moveLevelsUp_other:
  "n < 256 \<Longrightarrow> (\<forall>l<256. k \<noteq> keyForLevel a l) \<Longrightarrow> moveLevelsUp b a n k = b k"
proof (induction n arbitrary: b)
  case 0
  then show ?case by simp
next
  case (Suc n)
  then show ?case by (simp add: bPut_def)
qed

lemma mergeLevels_run:
  assumes "n = L - Suc c" "c < L" "L \<le> 55"
    and "\<forall>m. c < m \<and> m < L \<longrightarrow> length (levelData b a m) = 128 * 2 ^ m"
    and "length (levelData b a L) \<noteq> 128 * 2 ^ L"
  shows "mergeLevels b a c (128 * 2 ^ c) prev =
         Some (moveLevelsUp
                 (bPut b (keyForLevel a L)
                    (levelData b a L @ (if L = Suc c then prev else levelData b a (L - 1))))
                 a (L - 1))"
  using assms
proof (induction n arbitrary: c prev)
  case 0
  then have L: "L = Suc c" by simp
  have s: "s64 (128 * 2 ^ c * 2) = 128 * 2 ^ L" using s64_pow[of L] 0 L by simp
  have ne: "int (length (slice (bGet b (keyForLevel a L)))) \<noteq> 128 * 2 ^ L"
  proof
    assume "int (length (slice (bGet b (keyForLevel a L)))) = 128 * 2 ^ L"
    then have "int (length (slice (bGet b (keyForLevel a L)))) = int (128 * 2 ^ L)" by simp
    then have "length (slice (bGet b (keyForLevel a L))) = 128 * 2 ^ L" by (simp only: of_nat_eq_iff)
    with 0(5) show False by (simp add: levelData_def)
  qed
  have m: "(c + 1) mod 256 = L" "(L + 255) mod 256 = L - 1" using 0 L by (simp_all add: mod_simps)
  show ?case
    apply (subst mergeLevels.simps)
    apply (simp only: m s)
    using ne L by (simp add: levelData_def)
next
  case (Suc n)
  then have lt: "Suc c < L" by simp
  have s: "s64 (128 * 2 ^ c * 2) = 128 * 2 ^ Suc c" using s64_pow[of "Suc c"] Suc lt by simp
  have m: "(c + 1) mod 256 = Suc c" using Suc lt by simp
  have full: "length (levelData b a (Suc c)) = 128 * 2 ^ Suc c" using Suc(5) lt by simp
  then have e: "int (length (slice (bGet b (keyForLevel a (Suc c))))) = 128 * 2 ^ Suc c"
    unfolding levelData_def by (simp only: of_nat_mult of_nat_numeral of_nat_power)
  have IH: "mergeLevels b a (Suc c) (128 * 2 ^ Suc c) (levelData b a (Suc c)) =
         Some (moveLevelsUp
                 (bPut b (keyForLevel a L)
                    (levelData b a L @ (if L = Suc (Suc c) then levelData b a (Suc c) else levelData b a (L - 1))))
                 a (L - 1))"
    apply (rule Suc.IH) using Suc lt by auto
  have same: "(if L = Suc (Suc c) then levelData b a (Suc c) else levelData b a (L - 1)) = levelData b a (L - 1)"
    by auto
  show ?case
    apply (subst mergeLevels.simps)
    apply (simp only: m s e if_True)
    using IH same lt by (simp add: levelData_def)
qed


lemma stored_levelData:
  "storedLevels b a ls \<Longrightarrow> l < 256 \<Longrightarrow> levelData b a l = (if l < length ls then ls ! l else [])"
  by (auto simp: storedLevels_def levelData_def)

lemma length_PutUint32: "length (PutUint32 v) = 4"
  by (simp add: PutUint32_def)

lemma length_serialize [simp]: "length (serializeAddrIndexEntry i t x) = 16"
  by (simp add: serializeAddrIndexEntry_def length_PutUint32)

lemma wfLevels_nth: "wfLevels ls \<Longrightarrow> l < length ls \<Longrightarrow> levelOk l (ls ! l)"
  by (simp add: wfLevels_def)

lemma split_levels:
  assumes "1 \<le> L" "L \<le> length ls"
  shows "concat (rev ls) =
         concat (rev (drop (Suc L) ls)) @ (if L < length ls then ls ! L else []) @ ls ! (L - 1)
           @ concat (rev (take (L - 1) ls))"
proof -
  have a: "ls = take L ls @ drop L ls" by simp
  have b: "take L ls = take (L - 1) ls @ [ls ! (L - 1)]"
    using assms by (metis One_nat_def Suc_pred diff_less le_imp_less_Suc less_Suc_eq_le take_Suc_conv_app_nth zero_less_one order_less_le_trans)
  have c: "drop L ls = (if L < length ls then [ls ! L] else []) @ drop (Suc L) ls"
    using assms by (simp add: Cons_nth_drop_Suc)
  have "concat (rev ls) = concat (rev (take L ls @ drop L ls))" by simp
  also have "\<dots> = concat (rev (drop L ls)) @ concat (rev (take L ls))" by (simp only: rev_append concat_append)
  also have "\<dots> = concat (rev (drop (Suc L) ls)) @ (if L < length ls then ls ! L else []) @ ls ! (L - 1)
           @ concat (rev (take (L - 1) ls))"
    by (subst c, subst b) simp
  finally show ?thesis .
qed


lemma levelOk_0_len: "levelOk 0 d \<Longrightarrow> length d < 128 \<Longrightarrow> length d + 16 \<le> 128"
  unfolding levelOk_def by (auto elim!: dvdE)

lemma put_fast_path:
  assumes "length (levelData b a 0) + 16 \<le> 128"
  shows "dbPutAddrIndexEntry b a i t x =
         Some (bPut b (keyForLevel a 0) (levelData b a 0 @ serializeAddrIndexEntry i t x))"
  using assms
  by (simp add: dbPutAddrIndexEntry_def Let_def level0MaxEntries_def txEntrySize_def levelData_def)

lemma put_cascade_path:
  assumes l0: "length (levelData b a 0) = 128"
    and L: "1 \<le> L" "L \<le> 55"
    and full: "\<forall>m. 0 < m \<and> m < L \<longrightarrow> length (levelData b a m) = 128 * 2 ^ m"
    and nonfull: "length (levelData b a L) \<noteq> 128 * 2 ^ L"
  shows "dbPutAddrIndexEntry b a i t x =
         Some (bPut (moveLevelsUp
                 (bPut b (keyForLevel a L) (levelData b a L @ levelData b a (L - 1)))
                 a (L - 1)) (keyForLevel a 0) (serializeAddrIndexEntry i t x))"
proof -
  have m: "mergeLevels b a 0 (128 * 2 ^ 0) (levelData b a 0) =
         Some (moveLevelsUp
                 (bPut b (keyForLevel a L)
                    (levelData b a L @ (if L = Suc 0 then levelData b a 0 else levelData b a (L - 1))))
                 a (L - 1))"
    by (rule mergeLevels_run[where n = "L - Suc 0"]) (use L full nonfull in auto)
  have e: "(if L = Suc 0 then levelData b a 0 else levelData b a (L - 1)) = levelData b a (L - 1)"
    by auto
  show ?thesis
    using l0 m unfolding e
    by (simp add: dbPutAddrIndexEntry_def Let_def level0MaxEntries_def txEntrySize_def levelData_def)
qed

lemma applyOps_append:
  "applyOps b a (xs @ ys) =
     (case applyOps b a xs of Some (Inr b') \<Rightarrow> applyOps b' a ys | r \<Rightarrow> r)"
  by (induction xs arbitrary: b) (auto split: option.splits sum.splits)

lemma length_entryBytes: "isAppend op \<Longrightarrow> length (entryBytes op) = 16"
  by (cases op) simp_all

lemma bPut_bPut [simp]: "bPut (bPut b k v) k v' = bPut b k v'"
  by (simp add: bPut_def)

lemma length_concat_const:
  "(\<forall>y \<in> set ys. length y = k) \<Longrightarrow> length (concat ys) = k * length ys"
  by (induction ys) auto

lemma fast_appends:
  "list_all isAppend ops \<Longrightarrow> ops \<noteq> [] \<Longrightarrow> length (levelData b a 0) + 16 * length ops \<le> 128 \<Longrightarrow>
   applyOps b a ops =
     Some (Inr (bPut b (keyForLevel a 0) (levelData b a 0 @ concat (map entryBytes ops))))"
proof (induction ops arbitrary: b)
  case Nil
  then show ?case by simp
next
  case (Cons op ops)
  then obtain i t x where op: "op = Append i t x" by (cases op) auto
  have p: "dbPutAddrIndexEntry b a i t x =
         Some (bPut b (keyForLevel a 0) (levelData b a 0 @ serializeAddrIndexEntry i t x))"
    by (rule put_fast_path) (use Cons in simp)
  show ?case
  proof (cases "ops = []")
    case True
    then show ?thesis using p op by simp
  next
    case False
    let ?b = "bPut b (keyForLevel a 0) (levelData b a 0 @ serializeAddrIndexEntry i t x)"
    have ld: "levelData ?b a 0 = levelData b a 0 @ serializeAddrIndexEntry i t x"
      by (simp add: levelData_def)
    have "applyOps ?b a ops =
      Some (Inr (bPut ?b (keyForLevel a 0) (levelData ?b a 0 @ concat (map entryBytes ops))))"
      by (rule Cons.IH) (use Cons False ld in auto)
    then show ?thesis using p op ld by simp
  qed
qed

lemma cascade_levels:
  assumes l0: "length (levelData b a 0) = 128"
    and L: "1 \<le> L" "L \<le> 55"
    and full: "\<forall>m. 0 < m \<and> m < L \<longrightarrow> length (levelData b a m) = 128 * 2 ^ m"
    and nonfull: "length (levelData b a L) \<noteq> 128 * 2 ^ L"
  shows "levelAfter (applyOp b a (Append i t x)) a L = Some (levelData b a L @ levelData b a (L - 1))"
    and "\<forall>m. 0 < m \<and> m < L \<longrightarrow> levelAfter (applyOp b a (Append i t x)) a m = Some (levelData b a (m - 1))"
    and "levelAfter (applyOp b a (Append i t x)) a 0 = Some (serializeAddrIndexEntry i t x)"
proof -
  note p = put_cascade_path[OF l0 L full nonfull, of i t x]
  have L256: "L < 256" "L - 1 < 256" "\<not> L \<le> L - 1" "L \<noteq> 0" using L by auto
  show "levelAfter (applyOp b a (Append i t x)) a L = Some (levelData b a L @ levelData b a (L - 1))"
    using L256 by (simp add: p moveLevelsUp_get)
  show "\<forall>m. 0 < m \<and> m < L \<longrightarrow> levelAfter (applyOp b a (Append i t x)) a m = Some (levelData b a (m - 1))"
    using L L256 by (auto simp add: p moveLevelsUp_get levelData_def)
  show "levelAfter (applyOp b a (Append i t x)) a 0 = Some (serializeAddrIndexEntry i t x)"
    using L L256 by (simp add: p)
qed

lemma nine_appends:
  assumes e: "noEntries b a" and n: "length ops = 9" and app: "list_all isAppend ops"
  shows "levelAfter (applyOps b a ops) a 0 = Some (entryBytes (ops ! 8))"
    and "levelAfter (applyOps b a ops) a 1 = Some (concat (map entryBytes (take 8 ops)))"
proof -
  let ?xs = "take 8 ops"
  let ?D = "concat (map entryBytes ?xs)"
  let ?b8 = "bPut b (keyForLevel a 0) ?D"
  have ops: "ops = ?xs @ [ops ! 8]"
    using n by (metis append_take_drop_id Cons_nth_drop_Suc drop_all lessI numeral_eq_Suc pred_numeral_simps(3) Suc_numeral semiring_norm(5) order_refl semiring_norm(2) semiring_norm(8))
  have l0: "levelData b a 0 = []" using e by (simp add: noEntries_def levelData_def)
  have xs: "list_all isAppend ?xs" "?xs \<noteq> []" "length ?xs = 8"
    using app n by (auto simp: list_all_iff dest: in_set_takeD)
  have 8: "applyOps b a ?xs = Some (Inr ?b8)"
    using fast_appends[OF xs(1,2), of b a] xs(3) l0 by simp
  have "isAppend (ops ! 8)" using app n by (simp add: list_all_length)
  then obtain i t x where o9: "ops ! 8 = Append i t x"
    by (cases "ops ! 8") auto
  have lenD: "length ?D = 128"
  proof -
    have "\<forall>y \<in> set (map entryBytes ?xs). length y = 16"
      using xs(1) by (auto simp: list_all_iff length_entryBytes)
    then have "length ?D = 16 * length (map entryBytes ?xs)"
      by (rule length_concat_const)
    then show ?thesis using xs(3) by simp
  qed
  have ld0: "levelData ?b8 a 0 = ?D" by (simp add: levelData_def)
  have ld1: "levelData ?b8 a 1 = []" using e by (simp add: noEntries_def levelData_def)
  have c0: "length (levelData ?b8 a 0) = 128" using lenD ld0 by simp
  have c1: "\<forall>m. 0 < m \<and> m < (1::nat) \<longrightarrow> length (levelData ?b8 a m) = 128 * 2 ^ m" by simp
  have c2: "length (levelData ?b8 a 1) \<noteq> 128 * 2 ^ (1::nat)" using ld1 by simp
  have cL: "levelAfter (applyOp ?b8 a (Append i t x)) a 1 = Some (levelData ?b8 a 1 @ levelData ?b8 a (1 - 1))"
    by (rule cascade_levels(1)[OF c0 _ _ c1 c2]) simp_all
  have cZ: "levelAfter (applyOp ?b8 a (Append i t x)) a 0 = Some (serializeAddrIndexEntry i t x)"
    by (rule cascade_levels(3)[OF c0 _ _ c1 c2]) simp_all
  have run: "applyOps b a ops = applyOp ?b8 a (Append i t x)"
    by (subst ops, subst applyOps_append) (simp add: 8 o9 split: option.splits sum.splits)
  show "levelAfter (applyOps b a ops) a 0 = Some (entryBytes (ops ! 8))"
    using cZ by (simp only: run o9 entryBytes.simps)
  show "levelAfter (applyOps b a ops) a 1 = Some (concat (map entryBytes (take 8 ops)))"
    using cL by (simp only: run ld0 ld1 append_Nil diff_self_eq_0)
qed

subsection \<open>An append on stored levels\<close>

lemma storedLevelsI:
  assumes "length ls \<le> 256"
    and "\<And>l. l < 256 \<Longrightarrow> bGet b (keyForLevel a l) = (if l < length ls then Some (ls ! l) else None)"
  shows "storedLevels b a ls"
  using assms by (auto simp: storedLevels_def)

lemma storedLevels_get:
  "storedLevels b a ls \<Longrightarrow> l < 256 \<Longrightarrow>
   bGet b (keyForLevel a l) = (if l < length ls then Some (ls ! l) else None)"
  by (auto simp: storedLevels_def)

lemma sameElsewhere_refl: "sameElsewhere b b a"
  by (simp add: sameElsewhere_def)

lemma sameElsewhere_trans:
  "sameElsewhere b b' a \<Longrightarrow> sameElsewhere b' b'' a \<Longrightarrow> sameElsewhere b b'' a"
  by (simp add: sameElsewhere_def)

lemma sameElsewhere_bPut: "l < 256 \<Longrightarrow> sameElsewhere b (bPut b (keyForLevel a l) v) a"
  by (auto simp: sameElsewhere_def bPut_def)

lemma sameElsewhere_moveLevelsUp: "n < 256 \<Longrightarrow> sameElsewhere b (moveLevelsUp b a n) a"
  by (simp add: sameElsewhere_def moveLevelsUp_other)

lemma wfLevels_Nil: "wfLevels []"
  by (simp add: wfLevels_def)

lemma levelOk_entry: "length e = 16 \<Longrightarrow> levelOk 0 e"
  by (simp add: levelOk_def)

lemma put_stored_fast:
  assumes st: "storedLevels b a ls" and wf: "wfLevels ls"
    and fast: "ls = [] \<or> length (ls ! 0) < 128"
  shows "\<exists>ls' b'. dbPutAddrIndexEntry b a i t x = Some b' \<and> storedLevels b' a ls'
           \<and> wfLevels ls' \<and> length ls' \<le> Suc (length ls)
           \<and> concat (rev ls') = concat (rev ls) @ serializeAddrIndexEntry i t x
           \<and> sameElsewhere b b' a"
proof -
  let ?e = "serializeAddrIndexEntry i t x"
  let ?b' = "bPut b (keyForLevel a 0) (levelData b a 0 @ ?e)"
  have ld: "levelData b a 0 = (if ls = [] then [] else ls ! 0)"
    using stored_levelData[OF st, of 0] by simp
  have le: "length (levelData b a 0) + 16 \<le> 128"
  proof (cases "ls = []")
    case True
    then show ?thesis using ld by simp
  next
    case False
    then have "levelOk 0 (ls ! 0)" using wf by (simp add: wfLevels_def)
    then show ?thesis using fast False ld by (simp add: levelOk_0_len)
  qed
  have p: "dbPutAddrIndexEntry b a i t x = Some ?b'" using le by (rule put_fast_path)
  show ?thesis
  proof (cases ls)
    case Nil
    have "storedLevels ?b' a [?e]"
      using st Nil ld by (intro storedLevelsI) (auto simp: storedLevels_def)
    moreover have "wfLevels [?e]" by (simp add: wfLevels_def levelOk_entry)
    ultimately show ?thesis using p Nil by (auto intro!: exI[of _ "[?e]"] sameElsewhere_bPut)
  next
    case (Cons d us)
    have len: "length ls \<le> 256" using st by (simp add: storedLevels_def)
    have "storedLevels ?b' a ((d @ ?e) # us)"
    proof (rule storedLevelsI)
      show "length ((d @ ?e) # us) \<le> 256" using len Cons by simp
      fix l :: nat assume l: "l < 256"
      show "bGet ?b' (keyForLevel a l) = (if l < length ((d @ ?e) # us) then Some (((d @ ?e) # us) ! l) else None)"
        using storedLevels_get[OF st l] Cons ld l by (cases l) auto
    qed
    moreover have "wfLevels ((d @ ?e) # us)"
    proof -
      have ok: "levelOk 0 d" using wf Cons by (auto simp: wfLevels_def)
      have "length d < 128" using fast Cons by simp
      then have "levelOk 0 (d @ ?e)" using ok levelOk_0_len[OF ok] by (auto simp: levelOk_def)
      then show ?thesis using wf Cons
        unfolding wfLevels_def by (auto simp: nth_Cons split: nat.splits)
    qed
    ultimately show ?thesis
      using p Cons by (auto intro!: exI[of _ "(d @ ?e) # us"] sameElsewhere_bPut)
  qed
qed


lemma levelOk_0_full: "levelOk 0 d \<Longrightarrow> \<not> length d < 128 \<Longrightarrow> length d = 128"
  by (auto simp: levelOk_def)

lemma cascade_nth:
  assumes L: "1 \<le> L" "L \<le> length ls"
    and l: "l < length (e # take (L - 1) ls @ [c] @ drop (Suc L) ls)"
  shows "(e # take (L - 1) ls @ [c] @ drop (Suc L) ls) ! l =
         (if l = 0 then e else if l < L then ls ! (l - 1) else if l = L then c else ls ! l)"
proof -
  have len: "length (take (L - 1) ls) = L - 1" using L by simp
  consider "l = 0" | "1 \<le> l" "l < L" | "l = L" | "L < l" by linarith
  then show ?thesis
  proof cases
    case 1
    then show ?thesis by simp
  next
    case 2
    then have "(e # take (L - 1) ls @ [c] @ drop (Suc L) ls) ! l = (take (L - 1) ls @ [c] @ drop (Suc L) ls) ! (l - 1)"
      by (simp add: nth_Cons')
    also have "\<dots> = take (L - 1) ls ! (l - 1)"
    proof -
      have "l - 1 < length (take (L - 1) ls)" using 2 len by linarith
      then show ?thesis by (simp only: nth_append if_True)
    qed
    also have "\<dots> = ls ! (l - 1)"
    proof -
      have "l - 1 < L - 1" using 2 by linarith
      then show ?thesis by simp
    qed
    finally show ?thesis using 2 by simp
  next
    case 3
    then have "(e # take (L - 1) ls @ [c] @ drop (Suc L) ls) ! l = (take (L - 1) ls @ [c] @ drop (Suc L) ls) ! (L - 1)"
      using L by (simp add: nth_Cons')
    also have "\<dots> = c" using len by (simp add: nth_append)
    finally show ?thesis using 3 L by simp
  next
    case 4
    obtain K where K: "L = Suc K" using L by (cases L) auto
    obtain j where j: "l = Suc (Suc (K + j))" using 4 K by (metis Suc_leI add_Suc le_Suc_ex)
    have lenK: "length (take K ls) = K" using L K by simp
    have "(e # take K ls @ [c] @ drop (Suc (Suc K)) ls) ! Suc (Suc (K + j)) = (take K ls @ c # drop (Suc (Suc K)) ls) ! (Suc (K + j))"
      by simp
    also have "\<dots> = (c # drop (Suc (Suc K)) ls) ! (Suc (K + j) - K)"
      using lenK by (simp only: nth_append) simp
    also have "\<dots> = drop (Suc (Suc K)) ls ! j" by simp
    also have "\<dots> = ls ! (Suc (Suc K) + j)"
      using l L K j by (intro nth_drop) simp
    finally show ?thesis using 4 K j by simp
  qed
qed

lemma cascade_length:
  assumes "1 \<le> L" "L \<le> length ls"
  shows "length (e # take (L - 1) ls @ [c] @ drop (Suc L) ls) = max (length ls) (Suc L)"
  using assms by auto

lemma put_stored_cascade:
  assumes st: "storedLevels b a ls" and wf: "wfLevels ls" and len: "length ls \<le> 55"
    and slow: "ls \<noteq> []" "\<not> length (ls ! 0) < 128"
  shows "\<exists>ls' b'. dbPutAddrIndexEntry b a i t x = Some b' \<and> storedLevels b' a ls'
           \<and> wfLevels ls' \<and> length ls' \<le> Suc (length ls)
           \<and> concat (rev ls') = concat (rev ls) @ serializeAddrIndexEntry i t x
           \<and> sameElsewhere b b' a"
proof -
  let ?e = "serializeAddrIndexEntry i t x"
  define P where "P l \<longleftrightarrow> 1 \<le> l \<and> (length ls \<le> l \<or> length (ls ! l) \<noteq> 128 * 2 ^ l)" for l
  define L where "L = (LEAST l. P l)"
  have "P (length ls)" using slow by (cases ls) (auto simp: P_def)
  then have PL: "P L" and Lle: "L \<le> length ls"
    unfolding L_def by (rule LeastI, rule Least_le)
  have below: "m < length ls \<and> length (ls ! m) = 128 * 2 ^ m" if "1 \<le> m" "m < L" for m
  proof -
    have "\<not> P m" using that unfolding L_def by (meson not_less_Least)
    then show ?thesis using that by (auto simp: P_def)
  qed
  have L1: "1 \<le> L" using PL by (simp add: P_def)
  have L55: "L \<le> 55" using Lle len by simp
  have ld: "levelData b a l = (if l < length ls then ls ! l else [])" if "l < 256" for l
    using stored_levelData[OF st that] .
  have ok0: "levelOk 0 (ls ! 0)" using wf slow by (simp add: wfLevels_def)
  have l0: "length (ls ! 0) = 128" using ok0 slow by (simp add: levelOk_0_full)
  define cur where "cur = (if L < length ls then ls ! L else [])"
  have curlen: "length cur \<noteq> 128 * 2 ^ L" using PL by (auto simp: P_def cur_def)
  have c0: "length (levelData b a 0) = 128" using ld[of 0] slow l0 by simp
  have c1: "\<forall>m. 0 < m \<and> m < L \<longrightarrow> length (levelData b a m) = 128 * 2 ^ m"
    using below ld L55 by auto
  have c2: "length (levelData b a L) \<noteq> 128 * 2 ^ L" using ld[of L] L55 curlen by (simp add: cur_def)
  have ldL: "levelData b a L = cur" using ld[of L] L55 by (simp add: cur_def)
  have Lm: "L - 1 < length ls" "L - 1 < 256" using L55 L1 Lle by auto
  have ldp: "levelData b a (L - 1) = ls ! (L - 1)" using ld[OF Lm(2)] Lm(1) by simp
  let ?b1 = "bPut b (keyForLevel a L) (cur @ ls ! (L - 1))"
  let ?b2 = "moveLevelsUp ?b1 a (L - 1)"
  let ?b' = "bPut ?b2 (keyForLevel a 0) ?e"
  have p: "dbPutAddrIndexEntry b a i t x = Some ?b'"
    using put_cascade_path[OF c0 L1 L55 c1 c2, of i t x] unfolding ldL ldp .
  let ?ls' = "?e # take (L - 1) ls @ [cur @ ls ! (L - 1)] @ drop (Suc L) ls"
  have len': "length ?ls' = max (length ls) (Suc L)" using L1 Lle by (rule cascade_length)
  have nth': "?ls' ! l = (if l = 0 then ?e else if l < L then ls ! (l - 1)
                          else if l = L then cur @ ls ! (L - 1) else ls ! l)"
    if "l < length ?ls'" for l
    using L1 Lle that by (rule cascade_nth)
  have get: "bGet ?b' (keyForLevel a l) = (if l < length ?ls' then Some (?ls' ! l) else None)"
    if l: "l < 256" for l
  proof -
    have L256: "L < 256" "L - 1 < 256" using L55 by auto
    consider "l = 0" | "1 \<le> l" "l < L" | "l = L" | "L < l" by linarith
    then show ?thesis
    proof cases
      case 1
      then show ?thesis by simp
    next
      case 2
      then have le: "l \<le> L - 1" "l \<noteq> 0" by linarith+
      then have "bGet ?b' (keyForLevel a l) = Some (slice (bGet ?b1 (keyForLevel a (l - 1))))"
        using 2 l L256 by (simp add: moveLevelsUp_get)
      also have "bGet ?b1 (keyForLevel a (l - 1)) = bGet b (keyForLevel a (l - 1))"
      proof -
        have "l - 1 \<noteq> L" "l - 1 < 256" using 2 l by linarith+
        then show ?thesis using L256 by simp
      qed
      also have "\<dots> = Some (ls ! (l - 1))"
      proof -
        have "l - 1 < length ls" "l - 1 < 256" using 2 l Lle by linarith+
        then show ?thesis using storedLevels_get[OF st, of "l - 1"] by simp
      qed
      finally show ?thesis using 2 len' nth'[of l] by simp
    next
      case 3
      then have le: "\<not> l \<le> L - 1" "l \<noteq> 0" using L1 by linarith+
      then have "bGet ?b' (keyForLevel a l) = Some (cur @ ls ! (L - 1))"
        using 3 l L256 L1 by (simp add: moveLevelsUp_get)
      then show ?thesis using 3 len' nth'[of l] L1 by simp
    next
      case 4
      then have le: "\<not> l \<le> L - 1" "l \<noteq> 0" "l \<noteq> L" using L1 by linarith+
      then have "bGet ?b' (keyForLevel a l) = bGet b (keyForLevel a l)"
        using 4 l L256 L1 by (simp add: moveLevelsUp_get)
      also have "\<dots> = (if l < length ls then Some (ls ! l) else None)"
        using storedLevels_get[OF st l] .
      finally show ?thesis using 4 len' nth'[of l] L1 by auto
    qed
  qed
  have st': "storedLevels ?b' a ?ls'"
  proof (rule storedLevelsI)
    show "length ?ls' \<le> 256" using len' len L55 by simp
  qed (rule get)
  have wf': "wfLevels ?ls'"
    unfolding wfLevels_def
  proof (intro allI impI)
    fix l assume l: "l < length ?ls'"
    consider "l = 0" | "l = 1" "l < L" | "2 \<le> l" "l < L" | "l = L" | "L < l" by linarith
    then show "levelOk l (?ls' ! l)"
    proof cases
      case 1
      then show ?thesis using nth'[OF l] by (simp add: levelOk_entry)
    next
      case 2
      then show ?thesis using nth'[OF l] l0 by (simp add: levelOk_def)
    next
      case 3
      then have "length (ls ! (l - 1)) = 128 * 2 ^ (l - 1)" using below[of "l - 1"] by simp
      also have "(128::nat) * 2 ^ (l - 1) = 64 * 2 ^ l"
        using 3 by (cases l) simp_all
      finally show ?thesis using nth'[OF l] 3 by (simp add: levelOk_def)
    next
      case 4
      have prev: "length (ls ! (L - 1)) = 64 * 2 ^ L"
      proof (cases "L = 1")
        case True
        then show ?thesis using l0 by simp
      next
        case False
        then have "length (ls ! (L - 1)) = 128 * 2 ^ (L - 1)" using below[of "L - 1"] L1 by simp
        also have "(128::nat) * 2 ^ (L - 1) = 64 * 2 ^ L" using L1 by (cases L) simp_all
        finally show ?thesis .
      qed
      have "length cur = 0 \<or> length cur = 64 * 2 ^ L"
      proof (cases "L < length ls")
        case True
        then have "levelOk L (ls ! L)" using wf by (simp add: wfLevels_def)
        then show ?thesis using True L1 curlen by (auto simp: levelOk_def cur_def)
      next
        case False
        then show ?thesis by (simp add: cur_def)
      qed
      then show ?thesis using nth'[OF l] 4 L1 prev by (auto simp: levelOk_def)
    next
      case 5
      then have "l < length ls" using l len' by simp
      then have "levelOk l (ls ! l)" using wf by (simp add: wfLevels_def)
      then show ?thesis using nth'[OF l] 5 L1 by simp
    qed
  qed
  have cc: "concat (rev ?ls') = concat (rev ls) @ ?e"
    using split_levels[OF L1 Lle] by (simp add: cur_def)
  have se: "sameElsewhere b ?b' a"
  proof -
    have "sameElsewhere b ?b1 a" using L55 by (intro sameElsewhere_bPut) simp
    moreover have "sameElsewhere ?b1 ?b2 a" using L55 by (intro sameElsewhere_moveLevelsUp) simp
    moreover have "sameElsewhere ?b2 ?b' a" by (intro sameElsewhere_bPut) simp
    ultimately show ?thesis by (blast intro: sameElsewhere_trans)
  qed
  have "length ?ls' \<le> Suc (length ls)" using len' Lle by simp
  then show ?thesis using p st' wf' cc se by blast
qed

lemma put_stored:
  assumes st: "storedLevels b a ls" and wf: "wfLevels ls" and len: "length ls \<le> 55"
  shows "\<exists>ls' b'. dbPutAddrIndexEntry b a i t x = Some b' \<and> storedLevels b' a ls'
           \<and> wfLevels ls' \<and> length ls' \<le> Suc (length ls)
           \<and> concat (rev ls') = concat (rev ls) @ serializeAddrIndexEntry i t x
           \<and> sameElsewhere b b' a"
proof (cases "ls = [] \<or> length (ls ! 0) < 128")
  case True
  then show ?thesis by (rule put_stored_fast[OF st wf])
next
  case False
  then show ?thesis by (intro put_stored_cascade[OF st wf len]) auto
qed

subsection \<open>Capacities and pending updates\<close>

lemma s64_small: "0 \<le> x \<Longrightarrow> x < 2 ^ 63 \<Longrightarrow> s64 x = x"
  by (rule s64_id) simp_all

lemma pow2_bound: "n \<le> 55 \<Longrightarrow> (2::int) ^ n \<le> 2 ^ 55"
  by (rule pow2_le_int)

lemma maxEntriesForLevel_eq: "l \<le> 55 \<Longrightarrow> maxEntriesForLevel l = 8 * 2 ^ l"
proof (induction l)
  case 0
  then show ?case by (simp add: level0MaxEntries_def)
next
  case (Suc l)
  then have IH: "maxEntriesForLevel l = 8 * 2 ^ l" by simp
  have "(2::int) ^ Suc l \<le> 2 ^ 55" using Suc.prems by (rule pow2_bound)
  then have "(8::int) * 2 ^ l * 2 < 2 ^ 63" by simp
  then have "s64 (8 * 2 ^ l * 2) = 8 * 2 ^ l * 2" by (intro s64_small) simp_all
  then show ?case using IH by simp
qed

lemma minEntriesLoop_eq:
  "k + n \<le> 55 \<Longrightarrow>
   minEntriesLoop n (8 * 2 ^ k) (8 * 2 ^ k - 7) = 8 * 2 ^ (k + n) - 7"
proof (induction n arbitrary: k)
  case 0
  then show ?case by simp
next
  case (Suc n)
  have b: "(2::int) ^ Suc k \<le> 2 ^ 55" using Suc.prems by (intro pow2_bound) simp
  have p: "(1::int) \<le> 2 ^ k" by simp
  have 1: "s64 (8 * 2 ^ k * 2) = 8 * 2 ^ Suc k"
  proof -
    have "(0::int) \<le> 8 * 2 ^ k * 2" "(8::int) * 2 ^ k * 2 < 2 ^ 63" using b by simp_all
    then have "s64 (8 * 2 ^ k * 2) = 8 * 2 ^ k * 2" by (rule s64_small)
    then show ?thesis by simp
  qed
  have 2: "s64 (8 * 2 ^ k - 7 + 8 * 2 ^ k) = 8 * 2 ^ Suc k - 7"
  proof -
    have "(0::int) \<le> 8 * 2 ^ k - 7 + 8 * 2 ^ k" using p by linarith
    moreover have "(8::int) * 2 ^ k - 7 + 8 * 2 ^ k < 2 ^ 63" using b by simp
    ultimately have "s64 (8 * 2 ^ k - 7 + 8 * 2 ^ k) = 8 * 2 ^ k - 7 + 8 * 2 ^ k" by (rule s64_small)
    then show ?thesis by simp
  qed
  have "minEntriesLoop n (8 * 2 ^ Suc k) (8 * 2 ^ Suc k - 7) = 8 * 2 ^ (Suc k + n) - 7"
    using Suc.prems by (intro Suc.IH) simp
  then show ?case using 1 2 by simp
qed

lemma minEntriesToReachLevel_eq: "l \<le> 55 \<Longrightarrow> minEntriesToReachLevel l = 8 * 2 ^ l - 7"
  using minEntriesLoop_eq[of 0 l] by (simp add: minEntriesToReachLevel_def level0MaxEntries_def)

lemma pendOk_Nil: "pendOk []"
  by (simp add: pendOk_def)

lemma pendOk_update: "pendOk p \<Longrightarrow> l < 256 \<Longrightarrow> pendOk (AList.update l d p)"
  by (auto simp: pendOk_def distinct_update dom_update)

lemma map_of_update: "map_of (AList.update l d p) = (map_of p)(l \<mapsto> d)"
  by (rule update_conv')

lemma applyPending_Cons:
  "applyPending b a ((l, d) # p) =
     applyPending (if length d = 0 then bDelete b (keyForLevel a l)
                   else bPut b (keyForLevel a l) d) a p"
  by (simp add: applyPending_def)

lemma applyPending_get:
  "pendOk p \<Longrightarrow> l < 256 \<Longrightarrow>
   bGet (applyPending b a p) (keyForLevel a l) =
     (case map_of p l of None \<Rightarrow> bGet b (keyForLevel a l)
      | Some d \<Rightarrow> if d = [] then None else Some d)"
proof (induction p arbitrary: b)
  case Nil
  then show ?case by (simp add: applyPending_def)
next
  case (Cons x p)
  obtain l0 d0 where x: "x = (l0, d0)" by (cases x)
  have ok: "pendOk p" and l0: "l0 < 256" and fresh: "map_of p l0 = None"
    using Cons.prems x by (auto simp: pendOk_def map_of_eq_None_iff)
  show ?case
    unfolding x applyPending_Cons
    by (subst Cons.IH[OF ok Cons.prems(2)]) (use l0 fresh Cons.prems(2) in \<open>auto split: option.splits\<close>)
qed

lemma applyPending_other:
  "pendOk p \<Longrightarrow> (\<forall>l<256. k \<noteq> keyForLevel a l) \<Longrightarrow> applyPending b a p k = b k"
proof (induction p arbitrary: b)
  case Nil
  then show ?case by (simp add: applyPending_def)
next
  case (Cons x p)
  obtain l0 d0 where x: "x = (l0, d0)" by (cases x)
  have ok: "pendOk p" and l0: "l0 < 256"
    using Cons.prems x by (auto simp: pendOk_def)
  show ?case
    unfolding x applyPending_Cons
    by (subst Cons.IH[OF ok Cons.prems(2)]) (use l0 Cons.prems(2) in \<open>auto simp: bDelete_def bPut_def\<close>)
qed

lemma sameElsewhere_applyPending: "pendOk p \<Longrightarrow> sameElsewhere b (applyPending b a p) a"
  by (simp add: sameElsewhere_def applyPending_other)

subsection \<open>The first loop of the removal\<close>

lemma levelOk_nonempty: "levelOk l d \<Longrightarrow> d \<noteq> []"
  by (auto simp: levelOk_def split: if_splits)

lemma levelOk_dvd: "levelOk l d \<Longrightarrow> 16 dvd length d"
proof (cases l)
  case 0
  assume "levelOk l d"
  then show ?thesis using 0 by (simp add: levelOk_def)
next
  case (Suc k)
  assume "levelOk l d"
  then have "length d = 16 * (8 * 2 ^ k) \<or> length d = 16 * (16 * 2 ^ k)"
    using Suc by (simp add: levelOk_def)
  then show ?thesis by (metis dvd_triv_left)
qed

lemma levelOk_div: "levelOk l d \<Longrightarrow> 16 * (length d div 16) = length d"
  using levelOk_dvd by auto

lemma removeFromLevels_done:
  "numRemaining \<le> 0 \<Longrightarrow> removeFromLevels b a count level numRemaining p h = Some (Inr (p, h))"
  by (subst removeFromLevels.simps) simp

lemma removeFromLevels_spec:
  assumes st: "storedLevels b a ls" and wf: "wfLevels ls" and len: "length ls \<le> 55"
    and n: "n = length ls - i"
    and i: "i \<le> length ls" and rem: "0 < rem"
    and avail: "16 * nat rem \<le> length (concat (drop i ls))"
    and ok: "pendOk p"
  shows "\<exists>j r p'. i \<le> j \<and> j < length ls \<and> 0 < r \<and> 16 * r \<le> length (ls ! j)
           \<and> 16 * nat rem = length (concat (take (j - i) (drop i ls))) + 16 * r
           \<and> removeFromLevels b a count i rem p h = Some (Inr (p', j))
           \<and> pendOk p'
           \<and> map_of p' = (\<lambda>l. if i \<le> l \<and> l < j then Some []
                                else if l = j then Some (take (length (ls ! j) - 16 * r) (ls ! j))
                                else map_of p l)"
  using n i rem avail ok
proof (induction n arbitrary: i rem p h)
  case 0
  then have "drop i ls = []" by simp
  then show ?case using 0 by simp
next
  case (Suc n)
  then have il: "i < length ls" by simp
  let ?d = "ls ! i"
  have i256: "i < 256" "Suc i < 256" using il len by auto
  have okd: "levelOk i ?d" using wf il by (simp add: wfLevels_def)
  have ne: "?d \<noteq> []" using okd by (rule levelOk_nonempty)
  have dv: "16 * (length ?d div 16) = length ?d" using okd by (rule levelOk_div)
  have ld: "slice (bGet b (keyForLevel a i)) = ?d"
    using storedLevels_get[OF st i256(1)] il by simp
  have dr: "drop i ls = ?d # drop (Suc i) ls" using il by (simp add: Cons_nth_drop_Suc)
  have m: "(i + 1) mod 256 = Suc i" "Suc i mod 256 = Suc i" using i256 by simp_all
  let ?E = "int (length ?d div 16)"
  consider (more) "rem > ?E" | (all) "rem = ?E" | (part) "rem < ?E" by linarith
  then show ?case
  proof cases
    case more
    let ?p1 = "AList.update i [] p"
    have ok1: "pendOk ?p1" using Suc.prems(5) i256 by (intro pendOk_update)
    have av: "16 * nat (rem - ?E) \<le> length (concat (drop (Suc i) ls))"
    proof -
      have "16 * nat rem \<le> length ?d + length (concat (drop (Suc i) ls))"
        using Suc.prems(4) dr by simp
      moreover have "16 * nat (rem - ?E) = 16 * nat rem - length ?d" using more dv by linarith
      ultimately show ?thesis by linarith
    qed
    have "\<exists>j r p'. Suc i \<le> j \<and> j < length ls \<and> 0 < r \<and> 16 * r \<le> length (ls ! j)
           \<and> 16 * nat (rem - ?E) = length (concat (take (j - Suc i) (drop (Suc i) ls))) + 16 * r
           \<and> removeFromLevels b a count (Suc i) (rem - ?E) ?p1 i = Some (Inr (p', j))
           \<and> pendOk p'
           \<and> map_of p' = (\<lambda>l. if Suc i \<le> l \<and> l < j then Some []
                                else if l = j then Some (take (length (ls ! j) - 16 * r) (ls ! j))
                                else map_of ?p1 l)"
      by (rule Suc.IH) (use Suc.prems il more av ok1 in auto)
    then obtain j r p' where j: "Suc i \<le> j" "j < length ls" and r: "0 < r" "16 * r \<le> length (ls ! j)"
      and s: "16 * nat (rem - ?E) = length (concat (take (j - Suc i) (drop (Suc i) ls))) + 16 * r"
      and run: "removeFromLevels b a count (Suc i) (rem - ?E) ?p1 i = Some (Inr (p', j))"
      and ok': "pendOk p'"
      and mp: "map_of p' = (\<lambda>l. if Suc i \<le> l \<and> l < j then Some []
                                else if l = j then Some (take (length (ls ! j) - 16 * r) (ls ! j))
                                else map_of ?p1 l)"
      by blast
    have run': "removeFromLevels b a count i rem p h = Some (Inr (p', j))"
      by (subst removeFromLevels.simps) (use Suc.prems(3) ne more run in \<open>simp add: ld m txEntrySize_def\<close>)
    have tk: "take (j - i) (drop i ls) = ?d # take (j - Suc i) (drop (Suc i) ls)"
    proof -
      obtain k where "j - i = Suc k" "j - Suc i = k" using j by (metis Suc_diff_Suc Suc_le_lessD)
      then show ?thesis using dr by simp
    qed
    have s': "16 * nat rem = length (concat (take (j - i) (drop i ls))) + 16 * r"
    proof -
      have "16 * nat rem = 16 * nat (rem - ?E) + length ?d" using more dv by linarith
      then show ?thesis using s tk by simp
    qed
    have mp': "map_of p' = (\<lambda>l. if i \<le> l \<and> l < j then Some []
                                else if l = j then Some (take (length (ls ! j) - 16 * r) (ls ! j))
                                else map_of p l)"
      unfolding mp using j by (auto simp: map_of_update fun_eq_iff)
    have "i \<le> j" using j by simp
    then show ?thesis using j r s' run' ok' mp' by blast
  next
    case all
    let ?p1 = "AList.update i [] p"
    have ok1: "pendOk ?p1" using Suc.prems(5) i256 by (intro pendOk_update)
    have run0: "removeFromLevels b a count (Suc i) (rem - ?E) ?p1 i = Some (Inr (?p1, i))"
      using all by (intro removeFromLevels_done) simp
    have run': "removeFromLevels b a count i rem p h = Some (Inr (?p1, i))"
      by (subst removeFromLevels.simps) (use Suc.prems(3) ne all run0 in \<open>simp add: ld m txEntrySize_def\<close>)
    let ?r = "length ?d div 16"
    have "0 < length ?d" using ne by simp
    then have r: "0 < ?r" "16 * ?r \<le> length ?d" "16 * ?r = length ?d" using dv by linarith+
    have s: "16 * nat rem = length (concat (take (i - i) (drop i ls))) + 16 * ?r"
      using all by simp
    have mp: "map_of ?p1 = (\<lambda>l. if i \<le> l \<and> l < i then Some []
                                else if l = i then Some (take (length ?d - 16 * ?r) ?d)
                                else map_of p l)"
      using r(3) by (auto simp: map_of_update fun_eq_iff)
    show ?thesis using il r(1,2) s run' ok1 mp by blast
  next
    case part
    let ?r = "nat rem"
    let ?p1 = "AList.update i (take (length ?d - 16 * ?r) ?d) p"
    have ok1: "pendOk ?p1" using Suc.prems(5) i256 by (intro pendOk_update)
    have r: "0 < ?r" "16 * ?r \<le> length ?d" using part Suc.prems(3) dv by linarith+
    have nn: "nat (int (length ?d) - rem * 16) = length ?d - 16 * ?r" using Suc.prems(3) by linarith
    have run': "removeFromLevels b a count i rem p h = Some (Inr (?p1, i))"
      by (subst removeFromLevels.simps) (use Suc.prems(3) ne part nn in \<open>simp add: ld m txEntrySize_def\<close>)
    have s: "16 * nat rem = length (concat (take (i - i) (drop i ls))) + 16 * ?r" by simp
    have mp: "map_of ?p1 = (\<lambda>l. if i \<le> l \<and> l < i then Some []
                                else if l = i then Some (take (length ?d - 16 * ?r) ?d)
                                else map_of p l)"
      by (auto simp: map_of_update fun_eq_iff)
    show ?thesis using il r s run' ok1 mp by blast
  qed
qed

subsection \<open>Sizes of well-formed levels\<close>

lemma wfLevels_snoc: "wfLevels (ls @ [d]) \<longleftrightarrow> wfLevels ls \<and> levelOk (length ls) d"
  by (auto simp: wfLevels_def nth_append less_Suc_eq)

lemma wfLevels_append:
  "wfLevels (ls @ us) \<longleftrightarrow> wfLevels ls \<and> (\<forall>i<length us. levelOk (length ls + i) (us ! i))"
proof
  assume w: "wfLevels (ls @ us)"
  have "wfLevels ls" using w unfolding wfLevels_def
    by (metis length_append nth_append trans_less_add1)
  moreover have "\<forall>i<length us. levelOk (length ls + i) (us ! i)"
    using w unfolding wfLevels_def
    by (metis add_less_cancel_left length_append nth_append_length_plus)
  ultimately show "wfLevels ls \<and> (\<forall>i<length us. levelOk (length ls + i) (us ! i))" by simp
next
  assume h: "wfLevels ls \<and> (\<forall>i<length us. levelOk (length ls + i) (us ! i))"
  show "wfLevels (ls @ us)"
    unfolding wfLevels_def
  proof (intro allI impI)
    fix l assume l: "l < length (ls @ us)"
    show "levelOk l ((ls @ us) ! l)"
    proof (cases "l < length ls")
      case True
      then show ?thesis using h by (simp add: nth_append wfLevels_def)
    next
      case False
      then obtain i where i: "l = length ls + i" using le_Suc_ex not_less by blast
      then have "i < length us" using l by simp
      then show ?thesis using h i by (simp add: nth_append)
    qed
  qed
qed

lemma length_concat_rev: "length (concat (rev xs)) = length (concat xs)"
  by (induction xs) auto

lemma wfLevels_size:
  "wfLevels ls \<Longrightarrow> length ls = Suc T \<Longrightarrow>
   128 * 2 ^ T \<le> length (concat ls) + 112 \<and> length (concat ls) + 128 \<le> 256 * 2 ^ T"
proof (induction T arbitrary: ls)
  case 0
  then obtain d where ls: "ls = [d]" by (cases ls) auto
  then have "levelOk 0 d" using 0 by (simp add: wfLevels_def)
  then have "0 < length d" "length d \<le> 128" "16 dvd length d" by (auto simp: levelOk_def)
  then have "16 \<le> length d" "length d \<le> 128" by (auto dest: dvd_imp_le)
  then show ?case using ls by simp
next
  case (Suc T)
  then obtain xs d where ls: "ls = xs @ [d]" and lx: "length xs = Suc T"
    by (metis length_Suc_conv_rev)
  have wx: "wfLevels xs" and od: "levelOk (Suc T) d" using Suc.prems ls lx by (auto simp: wfLevels_snoc)
  have IH: "128 * 2 ^ T \<le> length (concat xs) + 112 \<and> length (concat xs) + 128 \<le> 256 * 2 ^ T"
    using wx lx by (rule Suc.IH)
  have "length d = 128 * 2 ^ T \<or> length d = 256 * 2 ^ T" using od by (simp add: levelOk_def)
  then show ?case using IH ls by auto
qed

lemma wfLevels_dvd: "wfLevels ls \<Longrightarrow> 16 dvd length (concat ls)"
proof (induction ls rule: rev_induct)
  case Nil
  then show ?case by simp
next
  case (snoc d ls)
  then have "16 dvd length (concat ls)" "16 dvd length d"
    by (auto simp: wfLevels_snoc dest: levelOk_dvd)
  then show ?case by simp
qed

text \<open>A lower bound on the bytes forces the number of levels.\<close>

lemma wfLevels_length_ge:
  assumes wf: "wfLevels lo" and le: "length lo \<le> Suc L"
    and big: "128 * 2 ^ L \<le> length (concat lo) + 112"
  shows "length lo = Suc L"
proof (rule ccontr)
  assume ne: "length lo \<noteq> Suc L"
  show False
  proof (cases lo)
    case Nil
    then have "(128::nat) * 2 ^ L \<le> 112" using big by simp
    moreover have "(1::nat) \<le> 2 ^ L" by simp
    ultimately show False by linarith
  next
    case (Cons x xs)
    then obtain T where T: "length lo = Suc T" by simp
    then have TL: "Suc T \<le> L" using ne le by simp
    have "length (concat lo) + 128 \<le> 256 * 2 ^ T" using wfLevels_size[OF wf T] by simp
    moreover have "(256::nat) * 2 ^ T \<le> 128 * 2 ^ L"
    proof -
      have "(2::nat) ^ Suc T \<le> 2 ^ L" using TL by (rule power_increasing) simp
      then show ?thesis by simp
    qed
    ultimately show False using big by linarith
  qed
qed

subsection \<open>The second loop of the removal\<close>

lemma int_pow2: "(2::int) ^ L = int (2 ^ L)"
  by simp

lemma squash_step_clear:
  assumes L: "L \<le> 54" and len: "length data = 16 * c" and small: "c + 8 \<le> 16 * 2 ^ L"
  shows "squashLevels (Suc L) data (8 * 2 ^ Suc L) p lowest =
         squashLevels L data (8 * 2 ^ L) (AList.update (Suc L) [] p) (Suc L)"
proof -
  have c: "length data div txEntrySize = c" using len by (simp add: txEntrySize_def)
  have h: "(8 * 2 ^ Suc L) div 2 = (8::int) * 2 ^ L" by simp
  have m: "minEntriesToReachLevel L = 8 * 2 ^ L - 7" using L by (intro minEntriesToReachLevel_eq) simp
  have "int (c + 8) \<le> int (16 * 2 ^ L)" using small by (simp only: of_nat_le_iff)
  then have "int c < 8 * 2 ^ L + (8 * 2 ^ L - 7)" by simp
  then show ?thesis
    by (simp only: squashLevels.simps Let_def c h m if_True)
qed

lemma squash_step_full:
  assumes L: "L \<le> 54" and len: "length data = 16 * c" and big: "24 * 2 ^ L \<le> c + 7"
  shows "squashLevels (Suc L) data (8 * 2 ^ Suc L) p lowest =
         squashLevels L (drop (256 * 2 ^ L) data) (8 * 2 ^ L)
           (AList.update (Suc L) (take (256 * 2 ^ L) data) p) lowest"
proof -
  have c: "length data div txEntrySize = c" using len by (simp add: txEntrySize_def)
  have h: "(8 * 2 ^ Suc L) div 2 = (8::int) * 2 ^ L" by simp
  have m: "minEntriesToReachLevel L = 8 * 2 ^ L - 7" using L by (intro minEntriesToReachLevel_eq) simp
  have "int (24 * 2 ^ L) \<le> int (c + 7)" using big by (simp only: of_nat_le_iff)
  then have b: "24 * 2 ^ L \<le> int c + 7" by simp
  have q: "(1::int) \<le> 2 ^ L" by simp
  have nA: "\<not> int c < 8 * 2 ^ L + (8 * 2 ^ L - 7)" using b q by linarith
  have F: "int c - 8 * 2 ^ Suc L \<ge> 8 * 2 ^ L - 7" using b by simp
  have off: "8 * 2 ^ Suc L * int txEntrySize = int (256 * 2 ^ L)" by (simp add: txEntrySize_def)
  have np: "\<not> (int (256 * 2 ^ L) < 0 \<or> int (256 * 2 ^ L) > int (length data))"
  proof -
    have "(1::nat) \<le> 2 ^ L" by simp
    then have "256 * 2 ^ L \<le> length data" using big len by linarith
    then show ?thesis by (simp only: of_nat_less_iff) simp
  qed
  show ?thesis
    by (simp only: squashLevels.simps Let_def c h m nA F off np if_True if_False nat_int)
qed

lemma squash_step_half:
  assumes L: "L \<le> 54" and len: "length data = 16 * c"
    and lo: "16 * 2 ^ L \<le> c + 7" and hi: "c + 7 < 24 * 2 ^ L"
  shows "squashLevels (Suc L) data (8 * 2 ^ Suc L) p lowest =
         squashLevels L (drop (128 * 2 ^ L) data) (8 * 2 ^ L)
           (AList.update (Suc L) (take (128 * 2 ^ L) data) p) lowest"
proof -
  have c: "length data div txEntrySize = c" using len by (simp add: txEntrySize_def)
  have h: "(8 * 2 ^ Suc L) div 2 = (8::int) * 2 ^ L" by simp
  have m: "minEntriesToReachLevel L = 8 * 2 ^ L - 7" using L by (intro minEntriesToReachLevel_eq) simp
  have "int (16 * 2 ^ L) \<le> int (c + 7)" using lo by (simp only: of_nat_le_iff)
  then have b: "16 * 2 ^ L \<le> int c + 7" by simp
  have "int (c + 7) < int (24 * 2 ^ L)" using hi by (simp only: of_nat_less_iff)
  then have b2: "int c + 7 < 24 * 2 ^ L" by simp
  have nA: "\<not> int c < 8 * 2 ^ L + (8 * 2 ^ L - 7)" using b by linarith
  have nF: "\<not> int c - 8 * 2 ^ Suc L \<ge> 8 * 2 ^ L - 7" using b2 by simp
  have off: "8 * 2 ^ L * int txEntrySize = int (128 * 2 ^ L)" by (simp add: txEntrySize_def)
  have np: "\<not> (int (128 * 2 ^ L) < 0 \<or> int (128 * 2 ^ L) > int (length data))"
  proof -
    have "(1::nat) \<le> 2 ^ L" by simp
    then have "128 * 2 ^ L \<le> length data" using lo len by linarith
    then show ?thesis by (simp only: of_nat_less_iff) simp
  qed
  show ?thesis
    by (simp only: squashLevels.simps Let_def c h m nA nF off np if_True if_False nat_int)
qed


lemma squash_keep:
  assumes L: "L \<le> 54" and ok: "pendOk p"
    and IH: "squashLevels L data' (8 * 2 ^ L) (AList.update (Suc L) tp p) lowest =
               Inr (p', (if length lo' \<le> L \<and> 1 \<le> L then max 1 (length lo') else lowest), rest)"
      "wfLevels lo'" "length lo' \<le> Suc L" "concat (rev lo') = data'"
      "rest = (if lo' = [] then [] else lo' ! 0)" "pendOk p'"
      "map_of p' = (\<lambda>l. if 1 \<le> l \<and> l \<le> L then Some (if l < length lo' then lo' ! l else [])
                          else map_of (AList.update (Suc L) tp p) l)"
    and big: "128 * 2 ^ L \<le> length data' + 112"
    and tp: "levelOk (Suc L) tp"
  shows "\<exists>lo. squashLevels L data' (8 * 2 ^ L) (AList.update (Suc L) tp p) lowest =
               Inr (p', (if length lo \<le> Suc L \<and> 1 \<le> Suc L then max 1 (length lo) else lowest), rest)
           \<and> wfLevels lo \<and> length lo \<le> Suc (Suc L) \<and> concat (rev lo) = tp @ data'
           \<and> rest = (if lo = [] then [] else lo ! 0) \<and> pendOk p'
           \<and> map_of p' = (\<lambda>l. if 1 \<le> l \<and> l \<le> Suc L then Some (if l < length lo then lo ! l else [])
                               else map_of p l)"
proof -
  have "length (concat lo') = length data'" using IH(4) length_concat_rev[of lo'] by simp
  then have len: "length lo' = Suc L" using wfLevels_length_ge[OF IH(2,3)] big by simp
  let ?lo = "lo' @ [tp]"
  have ne: "lo' \<noteq> []" using len by auto
  have 1: "squashLevels L data' (8 * 2 ^ L) (AList.update (Suc L) tp p) lowest =
               Inr (p', (if length ?lo \<le> Suc L \<and> 1 \<le> Suc L then max 1 (length ?lo) else lowest), rest)"
    using IH(1) len by simp
  have 2: "wfLevels ?lo" using IH(2) tp len by (simp add: wfLevels_snoc)
  have 3: "length ?lo \<le> Suc (Suc L)" using len by simp
  have 4: "concat (rev ?lo) = tp @ data'" using IH(4) by simp
  have 5: "rest = (if ?lo = [] then [] else ?lo ! 0)" using IH(5) ne by (simp add: nth_append)
  have 6: "map_of p' = (\<lambda>l. if 1 \<le> l \<and> l \<le> Suc L then Some (if l < length ?lo then ?lo ! l else [])
                               else map_of p l)"
    unfolding IH(7) using len by (auto simp: fun_eq_iff map_of_update nth_append le_Suc_eq)
  show ?thesis using 1 2 3 4 5 IH(6) 6 by blast
qed

lemma squashLevels_spec:
  assumes "L \<le> 54" "length data = 16 * c" "c + 8 \<le> 16 * 2 ^ L" "pendOk p"
  shows "\<exists>lo p' rest. squashLevels L data (8 * 2 ^ L) p lowest =
               Inr (p', (if length lo \<le> L \<and> 1 \<le> L then max 1 (length lo) else lowest), rest)
           \<and> wfLevels lo \<and> length lo \<le> Suc L \<and> concat (rev lo) = data
           \<and> rest = (if lo = [] then [] else lo ! 0) \<and> pendOk p'
           \<and> map_of p' = (\<lambda>l. if 1 \<le> l \<and> l \<le> L then Some (if l < length lo then lo ! l else [])
                               else map_of p l)"
  using assms
proof (induction L arbitrary: data c p lowest)
  case 0
  let ?lo = "if data = [] then [] else [data]"
  have c8: "c \<le> 8" using 0 by simp
  have 1: "squashLevels 0 data (8 * 2 ^ 0) p lowest =
        Inr (p, (if length ?lo \<le> 0 \<and> 1 \<le> (0::nat) then max 1 (length ?lo) else lowest), data)"
    by simp
  have "data \<noteq> [] \<Longrightarrow> 0 < c" using 0(2) by (cases c) auto
  then have 2: "wfLevels ?lo" using 0(2) c8 by (auto simp: wfLevels_def levelOk_def)
  have 3: "length ?lo \<le> Suc 0" by simp
  have 4: "concat (rev ?lo) = data" by simp
  have 5: "data = (if ?lo = [] then [] else ?lo ! 0)" by simp
  have 6: "map_of p = (\<lambda>l. if 1 \<le> l \<and> l \<le> 0 then Some (if l < length ?lo then ?lo ! l else [])
                               else map_of p l)"
    by (auto simp: fun_eq_iff)
  show ?case using 1 2 3 4 5 6 0(4) by blast
next
  case (Suc L)
  have L: "L \<le> 54" using Suc.prems by simp
  have cap: "c + 8 \<le> 32 * 2 ^ L" using Suc.prems(3) by simp
  have q: "(1::nat) \<le> 2 ^ L" by simp
  consider (clear) "c + 8 \<le> 16 * 2 ^ L" | (full) "24 * 2 ^ L \<le> c + 7"
    | (half) "16 * 2 ^ L \<le> c + 7" "c + 7 < 24 * 2 ^ L" by linarith
  then show ?case
  proof cases
    case clear
    let ?p1 = "AList.update (Suc L) [] p"
    have ok1: "pendOk ?p1" using Suc.prems(4) L by (intro pendOk_update) simp_all
    have step: "squashLevels (Suc L) data (8 * 2 ^ Suc L) p lowest =
         squashLevels L data (8 * 2 ^ L) ?p1 (Suc L)"
      using L Suc.prems(2) clear by (rule squash_step_clear)
    obtain lo p' rest where IH:
      "squashLevels L data (8 * 2 ^ L) ?p1 (Suc L) =
               Inr (p', (if length lo \<le> L \<and> 1 \<le> L then max 1 (length lo) else Suc L), rest)"
      "wfLevels lo" "length lo \<le> Suc L" "concat (rev lo) = data"
      "rest = (if lo = [] then [] else lo ! 0)" "pendOk p'"
      "map_of p' = (\<lambda>l. if 1 \<le> l \<and> l \<le> L then Some (if l < length lo then lo ! l else [])
                          else map_of ?p1 l)"
      using Suc.IH[OF L Suc.prems(2) clear ok1, of "Suc L"] by blast
    have lw: "(if length lo \<le> L \<and> 1 \<le> L then max 1 (length lo) else Suc L)
          = (if length lo \<le> Suc L \<and> 1 \<le> Suc L then max 1 (length lo) else lowest)"
      using IH(3) by auto
    have 1: "squashLevels (Suc L) data (8 * 2 ^ Suc L) p lowest =
               Inr (p', (if length lo \<le> Suc L \<and> 1 \<le> Suc L then max 1 (length lo) else lowest), rest)"
      using step IH(1) lw by simp
    have 3: "length lo \<le> Suc (Suc L)" using IH(3) by simp
    have 6: "map_of p' = (\<lambda>l. if 1 \<le> l \<and> l \<le> Suc L then Some (if l < length lo then lo ! l else [])
                               else map_of p l)"
      unfolding IH(7) using IH(3) by (auto simp: fun_eq_iff map_of_update le_Suc_eq)
    show ?thesis using 1 IH(2) 3 IH(4) IH(5) IH(6) 6 by blast
  next
    case full
    let ?tp = "take (256 * 2 ^ L) data"
    let ?data' = "drop (256 * 2 ^ L) data"
    let ?p1 = "AList.update (Suc L) ?tp p"
    have ok1: "pendOk ?p1" using Suc.prems(4) L by (intro pendOk_update) simp_all
    have step: "squashLevels (Suc L) data (8 * 2 ^ Suc L) p lowest =
         squashLevels L ?data' (8 * 2 ^ L) ?p1 lowest"
      using L Suc.prems(2) full by (rule squash_step_full)
    have ge: "16 * 2 ^ L \<le> c" using full q by linarith
    have len': "length ?data' = 16 * (c - 16 * 2 ^ L)" using Suc.prems(2) ge by simp
    have cap': "(c - 16 * 2 ^ L) + 8 \<le> 16 * 2 ^ L" using cap ge by linarith
    obtain lo' p' rest where IH:
      "squashLevels L ?data' (8 * 2 ^ L) ?p1 lowest =
               Inr (p', (if length lo' \<le> L \<and> 1 \<le> L then max 1 (length lo') else lowest), rest)"
      "wfLevels lo'" "length lo' \<le> Suc L" "concat (rev lo') = ?data'"
      "rest = (if lo' = [] then [] else lo' ! 0)" "pendOk p'"
      "map_of p' = (\<lambda>l. if 1 \<le> l \<and> l \<le> L then Some (if l < length lo' then lo' ! l else [])
                          else map_of ?p1 l)"
      using Suc.IH[OF L len' cap' ok1, of lowest] by blast
    have big: "128 * 2 ^ L \<le> length ?data' + 112" using len' full ge by linarith
    have "length ?tp = 256 * 2 ^ L" using Suc.prems(2) ge by simp
    then have tp: "levelOk (Suc L) ?tp" by (simp add: levelOk_def)
    show ?thesis
      using squash_keep[OF L Suc.prems(4) IH big tp] step by auto
  next
    case half
    let ?tp = "take (128 * 2 ^ L) data"
    let ?data' = "drop (128 * 2 ^ L) data"
    let ?p1 = "AList.update (Suc L) ?tp p"
    have ok1: "pendOk ?p1" using Suc.prems(4) L by (intro pendOk_update) simp_all
    have step: "squashLevels (Suc L) data (8 * 2 ^ Suc L) p lowest =
         squashLevels L ?data' (8 * 2 ^ L) ?p1 lowest"
      using L Suc.prems(2) half by (rule squash_step_half)
    have ge: "8 * 2 ^ L \<le> c" using half q by linarith
    have len': "length ?data' = 16 * (c - 8 * 2 ^ L)" using Suc.prems(2) ge by simp
    have cap': "(c - 8 * 2 ^ L) + 8 \<le> 16 * 2 ^ L" using half ge by linarith
    obtain lo' p' rest where IH:
      "squashLevels L ?data' (8 * 2 ^ L) ?p1 lowest =
               Inr (p', (if length lo' \<le> L \<and> 1 \<le> L then max 1 (length lo') else lowest), rest)"
      "wfLevels lo'" "length lo' \<le> Suc L" "concat (rev lo') = ?data'"
      "rest = (if lo' = [] then [] else lo' ! 0)" "pendOk p'"
      "map_of p' = (\<lambda>l. if 1 \<le> l \<and> l \<le> L then Some (if l < length lo' then lo' ! l else [])
                          else map_of ?p1 l)"
      using Suc.IH[OF L len' cap' ok1, of lowest] by blast
    have big: "128 * 2 ^ L \<le> length ?data' + 112" using len' half ge by linarith
    have "length ?tp = 128 * 2 ^ L" using Suc.prems(2) ge by simp
    then have tp: "levelOk (Suc L) ?tp" by (simp add: levelOk_def)
    show ?thesis
      using squash_keep[OF L Suc.prems(4) IH big tp] step by auto
  qed
qed

subsection \<open>The backfill loops of the removal\<close>

lemma halve_step:
  assumes l: "l \<le> 54" and m: "m \<le> l" and len: "length data = 256 * 2 ^ l"
  shows "halveLevels (Suc l) m data (8 * 2 ^ Suc l) p =
         halveLevels l m (drop (128 * 2 ^ l) data) (8 * 2 ^ l)
           (AList.update l (drop (128 * 2 ^ l) data)
              (AList.update (Suc l) (take (128 * 2 ^ l) data) p))"
proof -
  have h: "(8 * 2 ^ Suc l) div 2 = (8::int) * 2 ^ l" by simp
  have off: "8 * 2 ^ l * int txEntrySize = int (128 * 2 ^ l)" by (simp add: txEntrySize_def)
  have np: "\<not> (int (128 * 2 ^ l) < 0 \<or> int (128 * 2 ^ l) > int (length data))"
    using len by (simp only: of_nat_less_iff) simp
  have gt: "Suc l > m" using m by simp
  show ?thesis
    by (simp only: halveLevels.simps Let_def h off np gt if_True if_False nat_int)
qed

lemma halve_stop: "l \<le> m \<Longrightarrow> halveLevels l m data cm p = Inr p"
  by (cases l) simp_all

lemma halveLevels_spec:
  assumes "l \<le> 55" "m \<le> l" "length data = 128 * 2 ^ l" "pendOk p" "map_of p l = Some data"
  shows "\<exists>cs p'. halveLevels l m data (8 * 2 ^ l) p = Inr p' \<and> pendOk p'
           \<and> length cs = Suc (l - m) \<and> concat (rev cs) = data
           \<and> length (cs ! 0) = 128 * 2 ^ m
           \<and> (\<forall>i. 1 \<le> i \<and> i \<le> l - m \<longrightarrow> length (cs ! i) = 64 * 2 ^ (m + i))
           \<and> map_of p' = (\<lambda>x. if m \<le> x \<and> x \<le> l then Some (cs ! (x - m)) else map_of p x)"
  using assms
proof (induction l arbitrary: data p)
  case 0
  have 1: "halveLevels 0 m data (8 * 2 ^ 0) p = Inr p" by simp
  have 7: "map_of p = (\<lambda>x. if m \<le> x \<and> x \<le> 0 then Some ([data] ! (x - m)) else map_of p x)"
    using 0 by (auto simp: fun_eq_iff)
  show ?case
    using 1 0(4) 7 0(2,3) by (intro exI[of _ "[data]"] exI[of _ p]) simp
next
  case (Suc l)
  show ?case
  proof (cases "m = Suc l")
    case True
    have 1: "halveLevels (Suc l) m data (8 * 2 ^ Suc l) p = Inr p" using True by (intro halve_stop) simp
    have 7: "map_of p = (\<lambda>x. if m \<le> x \<and> x \<le> Suc l then Some ([data] ! (x - m)) else map_of p x)"
      using Suc.prems(5) True by (auto simp: fun_eq_iff)
    show ?thesis
      using 1 Suc.prems(4) 7 Suc.prems(3) True by (intro exI[of _ "[data]"] exI[of _ p]) simp
  next
    case False
    then have ml: "m \<le> l" using Suc.prems(2) by simp
    have l: "l \<le> 54" "l \<le> 55" using Suc.prems(1) by simp_all
    have len: "length data = 256 * 2 ^ l" using Suc.prems(3) by simp
    let ?tp = "take (128 * 2 ^ l) data"
    let ?rest = "drop (128 * 2 ^ l) data"
    let ?p1 = "AList.update l ?rest (AList.update (Suc l) ?tp p)"
    have step: "halveLevels (Suc l) m data (8 * 2 ^ Suc l) p = halveLevels l m ?rest (8 * 2 ^ l) ?p1"
      using l(1) ml len by (rule halve_step)
    have ok1: "pendOk ?p1" using Suc.prems(4) l by (intro pendOk_update) simp_all
    have lr: "length ?rest = 128 * 2 ^ l" using len by simp
    have lt: "length ?tp = 128 * 2 ^ l" using len by simp
    have m1: "map_of ?p1 l = Some ?rest" by (simp add: map_of_update)
    obtain cs p' where IH: "halveLevels l m ?rest (8 * 2 ^ l) ?p1 = Inr p'" "pendOk p'"
      "length cs = Suc (l - m)" "concat (rev cs) = ?rest" "length (cs ! 0) = 128 * 2 ^ m"
      "\<forall>i. 1 \<le> i \<and> i \<le> l - m \<longrightarrow> length (cs ! i) = 64 * 2 ^ (m + i)"
      "map_of p' = (\<lambda>x. if m \<le> x \<and> x \<le> l then Some (cs ! (x - m)) else map_of ?p1 x)"
      using Suc.IH[OF l(2) ml lr ok1 m1] by blast
    let ?cs = "cs @ [?tp]"
    have sd: "Suc l - m = Suc (l - m)" using ml by simp
    have 3: "length ?cs = Suc (Suc l - m)" using IH(3) sd by simp
    have 4: "concat (rev ?cs) = data" using IH(4) by simp
    have 5: "length (?cs ! 0) = 128 * 2 ^ m" using IH(5) IH(3) by (simp add: nth_append)
    have 6: "\<forall>i. 1 \<le> i \<and> i \<le> Suc l - m \<longrightarrow> length (?cs ! i) = 64 * 2 ^ (m + i)"
    proof (intro allI impI)
      fix i assume i: "1 \<le> i \<and> i \<le> Suc l - m"
      show "length (?cs ! i) = 64 * 2 ^ (m + i)"
      proof (cases "i \<le> l - m")
        case True
        then show ?thesis using IH(6) IH(3) i by (simp add: nth_append)
      next
        case False
        then have e: "i = Suc (l - m)" using i sd by simp
        then have "m + i = Suc l" using ml by simp
        then show ?thesis using e IH(3) lt by (simp add: nth_append)
      qed
    qed
    have 7: "map_of p' = (\<lambda>x. if m \<le> x \<and> x \<le> Suc l then Some (?cs ! (x - m)) else map_of p x)"
    proof (rule ext)
      fix x
      consider "m \<le> x" "x \<le> l" | "x = Suc l" | "x < m" | "Suc l < x" by linarith
      then show "map_of p' x = (if m \<le> x \<and> x \<le> Suc l then Some (?cs ! (x - m)) else map_of p x)"
      proof cases
        case 1
        then have "x - m < length cs" using IH(3) by simp
        then show ?thesis using 1 IH(7) by (simp add: nth_append)
      next
        case 2
        then have "x - m = length cs" using IH(3) sd by simp
        then show ?thesis using 2 IH(7) ml by (simp add: map_of_update nth_append)
      next
        case 3
        then show ?thesis using IH(7) ml by (simp add: map_of_update)
      next
        case 4
        then show ?thesis using IH(7) ml by (simp add: map_of_update)
      qed
    qed
    show ?thesis using step IH(1,2) 3 4 5 6 7 by (intro exI[of _ ?cs] exI[of _ p']) simp
  qed
qed

lemma backfill_done:
  "pendingAt p h \<noteq> [] \<Longrightarrow> backfillLevels b a p h m = Some (Inr p)"
  by (subst backfillLevels.simps) simp

lemma backfill_top:
  "pendingAt p h = [] \<Longrightarrow> slice (bGet b (keyForLevel a ((h + 1) mod 256))) = [] \<Longrightarrow>
   backfillLevels b a p h m = Some (Inr p)"
  by (subst backfillLevels.simps) simp

lemma backfill_full:
  assumes "pendingAt p h = []" and h: "h < 55"
    and d: "slice (bGet b (keyForLevel a (Suc h))) = d" and len: "length d = 128 * 2 ^ Suc h"
    and hv: "halveLevels (Suc h) m d (8 * 2 ^ Suc h) (AList.update (Suc h) d p) = Inr p2"
  shows "backfillLevels b a p h m = backfillLevels b a p2 (Suc h) (Suc h)"
proof -
  have md: "(h + 1) mod 256 = Suc h" using h by simp
  have mx: "maxEntriesForLevel (Suc h) = 8 * 2 ^ Suc h" using h by (intro maxEntriesForLevel_eq) simp
  have "length d div txEntrySize = 8 * 2 ^ Suc h" using len by (simp add: txEntrySize_def)
  then have e: "int (length d div txEntrySize) = 8 * 2 ^ Suc h" by simp
  have ne: "length d \<noteq> 0" using len by simp
  show ?thesis
    apply (subst backfillLevels.simps)
    apply (simp only: md d mx e assms(1) ne hv)
    apply simp
    done
qed

lemma backfill_half:
  assumes "pendingAt p h = []" and h: "h < 55"
    and d: "slice (bGet b (keyForLevel a (Suc h))) = d" and len: "length d = 128 * 2 ^ h"
    and hv: "halveLevels h m d (8 * 2 ^ h) (AList.update h d (AList.update (Suc h) [] p)) = Inr p2"
  shows "backfillLevels b a p h m = backfillLevels b a p2 (Suc h) (Suc h)"
proof -
  have md: "(h + 1) mod 256 = Suc h" "(Suc h + 255) mod 256 = h" using h by (simp_all add: mod_simps)
  have mx: "maxEntriesForLevel (Suc h) = 8 * 2 ^ Suc h" using h by (intro maxEntriesForLevel_eq) simp
  have h2: "(8 * 2 ^ Suc h) div 2 = (8::int) * 2 ^ h" by simp
  have "length d div txEntrySize = 8 * 2 ^ h" using len by (simp add: txEntrySize_def)
  then have e: "int (length d div txEntrySize) = 8 * 2 ^ h" by simp
  have neq: "(8::int) * 2 ^ h \<noteq> 8 * 2 ^ Suc h" by simp
  have ne: "length d \<noteq> 0" using len by simp
  show ?thesis
    apply (subst backfillLevels.simps)
    apply (simp only: md d mx e assms(1) ne h2 neq hv)
    apply simp
    done
qed

lemma levelOk_full: "length d = 128 * 2 ^ m \<Longrightarrow> levelOk m d"
  by (cases m) (auto simp: levelOk_def)

lemma levelOk_half: "1 \<le> m \<Longrightarrow> length d = 64 * 2 ^ m \<Longrightarrow> levelOk m d"
  by (auto simp: levelOk_def)

lemma wfLevels_drop:
  "wfLevels ls \<Longrightarrow> \<forall>i<length (drop k ls). levelOk (k + i) (drop k ls ! i)"
  by (auto simp: wfLevels_def)

lemma chunks_ok:
  assumes "length cs = Suc n" "length (cs ! 0) = 128 * 2 ^ m"
    "\<forall>i. 1 \<le> i \<and> i \<le> n \<longrightarrow> length (cs ! i) = 64 * 2 ^ (m + i)"
  shows "\<forall>i<length cs. levelOk (m + i) (cs ! i)"
proof (intro allI impI)
  fix i assume "i < length cs"
  then show "levelOk (m + i) (cs ! i)"
    using assms by (cases "i = 0") (auto intro: levelOk_full levelOk_half)
qed

lemma backfillLevels_spec:
  assumes st: "storedLevels b a ls" and wf: "wfLevels ls" and len: "length ls \<le> 55"
    and n: "n = length ls - Suc h" and h: "h < length ls"
    and wlo: "wfLevels lo" and llo: "length lo \<le> Suc h"
    and me: "length lo \<le> h \<longrightarrow> lowestEmpty = length lo"
    and ok: "pendOk p"
    and mp: "map_of p = (\<lambda>l. if l \<le> h then Some (if l < length lo then lo ! l else []) else None)"
  shows "\<exists>p' ls'. backfillLevels b a p h lowestEmpty = Some (Inr p') \<and> pendOk p'
           \<and> wfLevels ls' \<and> length ls' \<le> length ls
           \<and> concat (rev ls') = concat (rev (drop (Suc h) ls)) @ concat (rev lo)
           \<and> (\<forall>l<256. (case map_of p' l of None \<Rightarrow> bGet b (keyForLevel a l)
                          | Some d \<Rightarrow> if d = [] then None else Some d)
                        = (if l < length ls' then Some (ls' ! l) else None))"
  using n h wlo llo me ok mp
proof (induction n arbitrary: h lo lowestEmpty p)
  case 0
  then have top: "Suc h = length ls" by simp
  have h256: "Suc h < 256" using top len by simp
  have run: "backfillLevels b a p h lowestEmpty = Some (Inr p)"
  proof (cases "pendingAt p h = []")
    case True
    have "bGet b (keyForLevel a (Suc h)) = None"
      using storedLevels_get[OF st h256] top by simp
    then show ?thesis using True h256 by (intro backfill_top) simp_all
  next
    case False
    then show ?thesis by (rule backfill_done)
  qed
  have view: "(case map_of p l of None \<Rightarrow> bGet b (keyForLevel a l)
                          | Some d \<Rightarrow> if d = [] then None else Some d)
                        = (if l < length lo then Some (lo ! l) else None)" if l: "l < 256" for l
  proof (cases "l \<le> h")
    case True
    show ?thesis
    proof (cases "l < length lo")
      case t: True
      then have "lo ! l \<noteq> []" using "0.prems"(3) by (auto simp: wfLevels_def dest: levelOk_nonempty)
      then show ?thesis using True t "0.prems"(7) by simp
    next
      case False
      then show ?thesis using True "0.prems"(7) by simp
    qed
  next
    case False
    then have "\<not> l < length lo" "\<not> l < length ls" using "0.prems"(4) top by simp_all
    then show ?thesis using False "0.prems"(7) storedLevels_get[OF st l] by simp
  qed
  have "length lo \<le> length ls" using "0.prems"(4) top by simp
  moreover have "concat (rev lo) = concat (rev (drop (Suc h) ls)) @ concat (rev lo)" using top by simp
  ultimately show ?case using run "0.prems"(3,6) view by blast
next
  case (Suc n)
  then have above: "Suc h < length ls" by simp
  have h55: "h < 55" "Suc h < 256" using above len by simp_all
  let ?d = "ls ! Suc h"
  let ?up = "drop (Suc (Suc h)) ls"
  have d: "slice (bGet b (keyForLevel a (Suc h))) = ?d"
    using storedLevels_get[OF st h55(2)] above by simp
  have okd: "levelOk (Suc h) ?d" using wf above by (simp add: wfLevels_def)
  have dr: "drop (Suc h) ls = ?d # ?up" using above by (simp add: Cons_nth_drop_Suc)
  have upok: "\<forall>i<length ?up. levelOk (Suc (Suc h) + i) (?up ! i)" using wf by (rule wfLevels_drop)
  show ?case
  proof (cases "length lo = Suc h")
    case True
    have "lo ! h \<noteq> []" using Suc.prems(3) True by (auto simp: wfLevels_def dest: levelOk_nonempty)
    then have "pendingAt p h \<noteq> []" using Suc.prems(7) True by (simp add: pendingAt_def)
    then have run: "backfillLevels b a p h lowestEmpty = Some (Inr p)" by (rule backfill_done)
    let ?ls' = "lo @ drop (Suc h) ls"
    have w: "wfLevels ?ls'"
      using Suc.prems(3) wfLevels_drop[OF wf, of "Suc h"] True by (simp add: wfLevels_append)
    have l': "length ?ls' = length ls" using True above by simp
    have c: "concat (rev ?ls') = concat (rev (drop (Suc h) ls)) @ concat (rev lo)" by simp
    have view: "(case map_of p l of None \<Rightarrow> bGet b (keyForLevel a l)
                          | Some d \<Rightarrow> if d = [] then None else Some d)
                        = (if l < length ?ls' then Some (?ls' ! l) else None)" if l: "l < 256" for l
    proof (cases "l \<le> h")
      case t: True
      then have ll: "l < length lo" using True by simp
      then have "lo ! l \<noteq> []" using Suc.prems(3) by (auto simp: wfLevels_def dest: levelOk_nonempty)
      then show ?thesis using t ll Suc.prems(7) by (simp add: nth_append)
    next
      case False
      define i where "i = l - Suc h"
      have i: "l = Suc h + i" using False by (simp add: i_def)
      have "?ls' ! l = ls ! l" using i True above by (simp add: nth_append)
      then show ?thesis using False Suc.prems(7) storedLevels_get[OF st l] l' by simp
    qed
    show ?thesis using run Suc.prems(6) w l' c view by (intro exI[of _ p] exI[of _ ?ls']) simp
  next
    case False
    then have lh: "length lo \<le> h" using Suc.prems(4) by simp
    then have m: "lowestEmpty = length lo" using Suc.prems(5) by simp
    have pe: "pendingAt p h = []" using Suc.prems(7) lh by (simp add: pendingAt_def)
    have "length ?d = 64 * 2 ^ Suc h \<or> length ?d = 128 * 2 ^ Suc h" using okd by (simp add: levelOk_def)
    then consider (full) "length ?d = 128 * 2 ^ Suc h" | (half) "length ?d = 128 * 2 ^ h" by auto
    then show ?thesis
    proof cases
      case full
      let ?p1 = "AList.update (Suc h) ?d p"
      have ok1: "pendOk ?p1" using Suc.prems(6) h55 by (intro pendOk_update)
      have m1: "map_of ?p1 (Suc h) = Some ?d" by (simp add: map_of_update)
      have mS: "length lo \<le> Suc h" using lh by simp
      have sh: "Suc h \<le> 55" using h55 by simp
      obtain cs p2 where H: "halveLevels (Suc h) (length lo) ?d (8 * 2 ^ Suc h) ?p1 = Inr p2" "pendOk p2"
        "length cs = Suc (Suc h - length lo)" "concat (rev cs) = ?d"
        "length (cs ! 0) = 128 * 2 ^ length lo"
        "\<forall>i. 1 \<le> i \<and> i \<le> Suc h - length lo \<longrightarrow> length (cs ! i) = 64 * 2 ^ (length lo + i)"
        "map_of p2 = (\<lambda>x. if length lo \<le> x \<and> x \<le> Suc h then Some (cs ! (x - length lo)) else map_of ?p1 x)"
        using halveLevels_spec[OF sh mS full ok1 m1] by blast
      have csok: "\<forall>i<length cs. levelOk (length lo + i) (cs ! i)" using H(3,5,6) by (rule chunks_ok)
      have step: "backfillLevels b a p h lowestEmpty = backfillLevels b a p2 (Suc h) (Suc h)"
        using pe h55(1) d full H(1) unfolding m by (rule backfill_full)
      have "levelOk (length lo + (Suc h - length lo)) (cs ! (Suc h - length lo))"
        using csok H(3) by simp
      then have "cs ! (Suc h - length lo) \<noteq> []" by (rule levelOk_nonempty)
      then have "pendingAt p2 (Suc h) \<noteq> []" using H(7) mS by (simp add: pendingAt_def)
      then have run: "backfillLevels b a p h lowestEmpty = Some (Inr p2)"
        using step by (simp add: backfill_done)
      let ?ls' = "lo @ cs @ ?up"
      have w: "wfLevels ?ls'"
      proof -
        have "wfLevels (lo @ cs)" using Suc.prems(3) csok by (simp add: wfLevels_append)
        moreover have "length (lo @ cs) = Suc (Suc h)" using H(3) mS by simp
        ultimately have "wfLevels ((lo @ cs) @ ?up)" using upok by (simp only: wfLevels_append) simp
        then show ?thesis by simp
      qed
      have l': "length ?ls' = length ls" using H(3) mS above by simp
      have c: "concat (rev ?ls') = concat (rev (drop (Suc h) ls)) @ concat (rev lo)"
        using H(4) dr by simp
      have view: "(case map_of p2 l of None \<Rightarrow> bGet b (keyForLevel a l)
                          | Some d \<Rightarrow> if d = [] then None else Some d)
                        = (if l < length ?ls' then Some (?ls' ! l) else None)" if l: "l < 256" for l
      proof -
        consider "l < length lo" | "length lo \<le> l" "l \<le> Suc h" | "Suc h < l" by linarith
        then show ?thesis
        proof cases
          case 1
          then have "lo ! l \<noteq> []" using Suc.prems(3) by (auto simp: wfLevels_def dest: levelOk_nonempty)
          moreover have "l \<le> h" "l \<noteq> Suc h" using 1 lh by simp_all
          ultimately show ?thesis using 1 H(7) Suc.prems(7) by (simp add: nth_append map_of_update)
        next
          case 2
          define i where "i = l - length lo"
          have i: "l = length lo + i" "i < length cs" using 2 H(3) by (simp_all add: i_def)
          have "levelOk (length lo + i) (cs ! i)" using csok i by simp
          then have "cs ! i \<noteq> []" by (rule levelOk_nonempty)
          then show ?thesis using 2 i H(7) l' above by (simp add: nth_append)
        next
          case 3
          define i where "i = l - Suc (Suc h)"
          have i: "l = Suc (Suc h) + i" using 3 by (simp add: i_def)
          have lc: "length (lo @ cs) = Suc (Suc h)" using H(3) mS by simp
          have "((lo @ cs) @ ?up) ! (length (lo @ cs) + i) = ?up ! i" by (rule nth_append_length_plus)
          then have "((lo @ cs) @ ?up) ! l = ?up ! i" unfolding lc i .
          then have "?ls' ! l = ls ! l" using i above by simp
          moreover have "map_of p2 l = None" using 3 H(7) Suc.prems(7) by (simp add: map_of_update)
          ultimately show ?thesis using storedLevels_get[OF st l] l' by simp
        qed
      qed
      show ?thesis using run H(2) w l' c view by (intro exI[of _ p2] exI[of _ ?ls']) simp
    next
      case half
      let ?p1 = "AList.update h ?d (AList.update (Suc h) [] p)"
      have ok1: "pendOk ?p1" using Suc.prems(6) h55 by (intro pendOk_update) simp_all
      have m1: "map_of ?p1 h = Some ?d" by (simp add: map_of_update)
      have h55': "h \<le> 55" using h55 by simp
      obtain cs p2 where H: "halveLevels h (length lo) ?d (8 * 2 ^ h) ?p1 = Inr p2" "pendOk p2"
        "length cs = Suc (h - length lo)" "concat (rev cs) = ?d"
        "length (cs ! 0) = 128 * 2 ^ length lo"
        "\<forall>i. 1 \<le> i \<and> i \<le> h - length lo \<longrightarrow> length (cs ! i) = 64 * 2 ^ (length lo + i)"
        "map_of p2 = (\<lambda>x. if length lo \<le> x \<and> x \<le> h then Some (cs ! (x - length lo)) else map_of ?p1 x)"
        using halveLevels_spec[OF h55' lh half ok1 m1] by blast
      have csok: "\<forall>i<length cs. levelOk (length lo + i) (cs ! i)" using H(3,5,6) by (rule chunks_ok)
      have step: "backfillLevels b a p h lowestEmpty = backfillLevels b a p2 (Suc h) (Suc h)"
        using pe h55(1) d half H(1) unfolding m by (rule backfill_half)
      let ?lo' = "lo @ cs"
      have wlo': "wfLevels ?lo'" using Suc.prems(3) csok by (simp add: wfLevels_append)
      have llo': "length ?lo' = Suc h" using H(3) lh by simp
      have mp': "map_of p2 = (\<lambda>l. if l \<le> Suc h then Some (if l < length ?lo' then ?lo' ! l else []) else None)"
      proof (rule ext)
        fix l
        consider "l < length lo" | "length lo \<le> l" "l \<le> h" | "l = Suc h" | "Suc h < l" by linarith
        then show "map_of p2 l = (if l \<le> Suc h then Some (if l < length ?lo' then ?lo' ! l else []) else None)"
        proof cases
          case 1
          moreover have "l \<le> h" "l \<noteq> Suc h" "l \<noteq> h" using 1 lh by simp_all
          ultimately show ?thesis using H(7) Suc.prems(7) llo' by (simp add: nth_append map_of_update)
        next
          case 2
          then show ?thesis using H(7) llo' by (simp add: nth_append)
        next
          case 3
          then show ?thesis using H(7) llo' lh by (simp add: map_of_update)
        next
          case 4
          then show ?thesis using H(7) Suc.prems(7) lh by (simp add: map_of_update)
        qed
      qed
      obtain p' ls' where IH: "backfillLevels b a p2 (Suc h) (Suc h) = Some (Inr p')" "pendOk p'"
        "wfLevels ls'" "length ls' \<le> length ls"
        "concat (rev ls') = concat (rev (drop (Suc (Suc h)) ls)) @ concat (rev ?lo')"
        "\<forall>l<256. (case map_of p' l of None \<Rightarrow> bGet b (keyForLevel a l)
                          | Some d \<Rightarrow> if d = [] then None else Some d)
                        = (if l < length ls' then Some (ls' ! l) else None)"
      proof -
        have a1: "n = length ls - Suc (Suc h)" using Suc.prems(1) by simp
        have a4: "length ?lo' \<le> Suc (Suc h)" using llo' by simp
        have a5: "length ?lo' \<le> Suc h \<longrightarrow> Suc h = length ?lo'" using llo' by simp
        show ?thesis using Suc.IH[OF a1 above wlo' a4 a5 H(2) mp'] that by blast
      qed
      have c: "concat (rev ls') = concat (rev (drop (Suc h) ls)) @ concat (rev lo)"
        using IH(5) H(4) dr by simp
      show ?thesis using step IH(1,2,3,4,6) c by (intro exI[of _ p'] exI[of _ ls']) simp
    qed
  qed
qed

subsection \<open>A removal on stored levels\<close>

lemma split_at_level:
  assumes "j < length ls"
  shows "concat (rev ls) = concat (rev (drop (Suc j) ls)) @ ls ! j @ concat (rev (take j ls))"
proof -
  have "ls = take j ls @ ls ! j # drop (Suc j) ls" using assms by (simp add: id_take_nth_drop)
  then have "concat (rev ls) = concat (rev (take j ls @ ls ! j # drop (Suc j) ls))" by simp
  then show ?thesis by simp
qed

lemma take_logical:
  assumes j: "j < length ls" and r: "16 * r \<le> length (ls ! j)"
    and s: "16 * k = length (concat (take j ls)) + 16 * r"
  shows "take (length (concat ls) - 16 * k) (concat (rev ls)) =
         concat (rev (drop (Suc j) ls)) @ take (length (ls ! j) - 16 * r) (ls ! j)"
proof -
  let ?up = "concat (rev (drop (Suc j) ls))"
  let ?lo = "concat (rev (take j ls))"
  have sp: "concat (rev ls) = ?up @ ls ! j @ ?lo" using j by (rule split_at_level)
  have "length (concat ls) = length (concat (rev ls))" by (simp add: length_concat_rev)
  also have "\<dots> = length ?up + length (ls ! j) + length ?lo" using sp by simp
  finally have B: "length (concat ls) = length ?up + length (ls ! j) + length ?lo" .
  have lo: "length ?lo = length (concat (take j ls))" by (rule length_concat_rev)
  have n: "length (concat ls) - 16 * k = length ?up + (length (ls ! j) - 16 * r)"
    using B lo s r by linarith
  show ?thesis unfolding sp n by simp
qed

lemma remove_stored:
  assumes st: "storedLevels b a ls" and wf: "wfLevels ls" and len: "length ls \<le> 55"
    and c0: "0 < count" and cN: "16 * nat count \<le> length (concat ls)"
  shows "\<exists>ls' b'. dbRemoveAddrIndexEntries b a count = Some (Inr b') \<and> storedLevels b' a ls'
           \<and> wfLevels ls' \<and> length ls' \<le> length ls
           \<and> concat (rev ls') = take (length (concat ls) - 16 * nat count) (concat (rev ls))
           \<and> sameElsewhere b b' a"
proof -
  have av: "16 * nat count \<le> length (concat (drop 0 ls))" using cN by simp
  obtain j r p1 where j: "j < length ls" and r: "0 < r" "16 * r \<le> length (ls ! j)"
    and s: "16 * nat count = length (concat (take (j - 0) (drop 0 ls))) + 16 * r"
    and runA: "removeFromLevels b a count 0 count [] 0 = Some (Inr (p1, j))"
    and ok1: "pendOk p1"
    and mp1: "map_of p1 = (\<lambda>l. if 0 \<le> l \<and> l < j then Some []
                                else if l = j then Some (take (length (ls ! j) - 16 * r) (ls ! j))
                                else map_of [] l)"
    using removeFromLevels_spec[OF st wf len refl _ c0 av pendOk_Nil, of count 0] by auto
  let ?t = "take (length (ls ! j) - 16 * r) (ls ! j)"
  have s': "16 * nat count = length (concat (take j ls)) + 16 * r" using s by simp
  have target: "take (length (concat ls) - 16 * nat count) (concat (rev ls)) =
         concat (rev (drop (Suc j) ls)) @ ?t"
    using j r(2) s' by (rule take_logical)
  have okj: "levelOk j (ls ! j)" using wf j by (simp add: wfLevels_def)
  obtain e where e: "length (ls ! j) = 16 * e" using levelOk_dvd[OF okj] by (auto elim: dvdE)
  have re: "r \<le> e" using r(2) e by simp
  have lt: "length ?t = 16 * (e - r)" using e re by simp
  have j55: "j \<le> 54" "j < 256" using j len by simp_all
  have nc: "\<not> count \<le> 0" using c0 by simp
  have pj: "pendingAt p1 j = ?t" by (simp add: pendingAt_def mp1)
  show ?thesis
  proof (cases "pendingAt p1 0 = []")
    case False
    then have j0: "j = 0" using mp1 by (auto simp: pendingAt_def split: if_splits)
    have tne: "?t \<noteq> []" using False pj j0 by simp
    let ?b' = "applyPending b a p1"
    let ?ls' = "?t # tl ls"
    have run: "dbRemoveAddrIndexEntries b a count = Some (Inr ?b')"
      using False by (simp add: dbRemoveAddrIndexEntries_def nc runA)
    have lsc: "ls = ls ! 0 # tl ls" using j j0 by (cases ls) auto
    have st': "storedLevels ?b' a ?ls'"
    proof (rule storedLevelsI)
      show "length ?ls' \<le> 256" using len j by simp
      fix l :: nat assume l: "l < 256"
      have g: "bGet ?b' (keyForLevel a l) = (case map_of p1 l of None \<Rightarrow> bGet b (keyForLevel a l)
              | Some d \<Rightarrow> if d = [] then None else Some d)"
        using ok1 l by (rule applyPending_get)
      show "bGet ?b' (keyForLevel a l) = (if l < length ?ls' then Some (?ls' ! l) else None)"
      proof (cases l)
        case 0
        then show ?thesis using g mp1 j0 tne by simp
      next
        case (Suc k)
        have "tl ls ! k = ls ! Suc k" using lsc by (metis nth_Cons_Suc)
        then show ?thesis using g mp1 j0 Suc storedLevels_get[OF st l] j by auto
      qed
    qed
    have wf': "wfLevels ?ls'"
      unfolding wfLevels_def
    proof (intro allI impI)
      fix l assume l: "l < length ?ls'"
      show "levelOk l (?ls' ! l)"
      proof (cases l)
        case 0
        have "length (ls ! 0) \<le> 128" using okj j0 by (simp add: levelOk_def)
        then have "length ?t \<le> 128" using j0 by simp
        moreover have "0 < length ?t" using tne by simp
        moreover have "16 dvd length ?t" using lt by simp
        ultimately show ?thesis using 0 by (simp add: levelOk_def)
      next
        case (Suc k)
        have "tl ls ! k = ls ! Suc k" using lsc by (metis nth_Cons_Suc)
        moreover have "Suc k < length ls" using l Suc j by simp
        ultimately show ?thesis using wf Suc by (simp add: wfLevels_def)
      qed
    qed
    have dr: "drop (Suc 0) ls = tl ls" by (simp add: drop_Suc)
    have cc: "concat (rev ?ls') = take (length (concat ls) - 16 * nat count) (concat (rev ls))"
      using target j0 dr by simp
    have "length ?ls' \<le> length ls" using j by simp
    then show ?thesis using run st' wf' cc sameElsewhere_applyPending[OF ok1] by blast
  next
    case True
    have cap: "(e - r) + 8 \<le> 16 * 2 ^ j"
    proof -
      have "length (ls ! j) \<le> 128 * 2 ^ j" using okj by (cases j) (auto simp: levelOk_def)
      then have "e \<le> 8 * 2 ^ j" using e by simp
      moreover have "(1::nat) \<le> 2 ^ j" by simp
      ultimately show ?thesis using r(1) by linarith
    qed
    have mx: "maxEntriesForLevel j = 8 * 2 ^ j" using j55 by (intro maxEntriesForLevel_eq) simp
    obtain lo p2 rest where S:
      "squashLevels j ?t (8 * 2 ^ j) p1 255 =
               Inr (p2, (if length lo \<le> j \<and> 1 \<le> j then max 1 (length lo) else 255), rest)"
      "wfLevels lo" "length lo \<le> Suc j" "concat (rev lo) = ?t"
      "rest = (if lo = [] then [] else lo ! 0)" "pendOk p2"
      "map_of p2 = (\<lambda>l. if 1 \<le> l \<and> l \<le> j then Some (if l < length lo then lo ! l else [])
                          else map_of p1 l)"
      using squashLevels_spec[OF j55(1) lt cap ok1, of 255] by blast
    let ?lw = "if length lo \<le> j \<and> 1 \<le> j then max 1 (length lo) else 255"
    let ?p3 = "AList.update 0 rest p2"
    let ?me = "if length rest = 0 then 0 else ?lw"
    have ok3: "pendOk ?p3" using S(6) by (intro pendOk_update) simp_all
    have t0: "j = 0 \<Longrightarrow> ?t = []" using True pj by simp
    have mp3: "map_of ?p3 = (\<lambda>l. if l \<le> j then Some (if l < length lo then lo ! l else []) else None)"
    proof (rule ext)
      fix l
      show "map_of ?p3 l = (if l \<le> j then Some (if l < length lo then lo ! l else []) else None)"
      proof (cases "l = 0")
        case True
        then show ?thesis using S(5) by (auto simp: map_of_update)
      next
        case False
        then show ?thesis using S(7) mp1 by (auto simp: map_of_update)
      qed
    qed
    have me: "length lo \<le> j \<longrightarrow> ?me = length lo"
    proof
      assume lj: "length lo \<le> j"
      show "?me = length lo"
      proof (cases "lo = []")
        case True
        then show ?thesis using S(5) by simp
      next
        case False
        then have "levelOk 0 (lo ! 0)" using S(2) by (simp add: wfLevels_def)
        then have "rest \<noteq> []" using S(5) False by (auto dest: levelOk_nonempty)
        moreover have "1 \<le> length lo" using False by (cases lo) auto
        ultimately show ?thesis using lj by auto
      qed
    qed
    obtain p' ls' where D: "backfillLevels b a ?p3 j ?me = Some (Inr p')" "pendOk p'"
      "wfLevels ls'" "length ls' \<le> length ls"
      "concat (rev ls') = concat (rev (drop (Suc j) ls)) @ concat (rev lo)"
      "\<forall>l<256. (case map_of p' l of None \<Rightarrow> bGet b (keyForLevel a l)
                          | Some d \<Rightarrow> if d = [] then None else Some d)
                        = (if l < length ls' then Some (ls' ! l) else None)"
      using backfillLevels_spec[OF st wf len refl j S(2,3) me ok3 mp3] by blast
    let ?b' = "applyPending b a p'"
    have z: "(length (pendingAt p1 0) \<noteq> 0) = False" using True by simp
    have run: "dbRemoveAddrIndexEntries b a count = Some (Inr ?b')"
      unfolding dbRemoveAddrIndexEntries_def
      by (simp only: nc if_False runA option.case sum.case prod.case z pj mx S(1) D(1))
    have st': "storedLevels ?b' a ls'"
    proof (rule storedLevelsI)
      show "length ls' \<le> 256" using D(4) len by simp
      fix l :: nat assume l: "l < 256"
      show "bGet ?b' (keyForLevel a l) = (if l < length ls' then Some (ls' ! l) else None)"
        using applyPending_get[OF D(2) l, of b a] D(6) l by simp
    qed
    have cc: "concat (rev ls') = take (length (concat ls) - 16 * nat count) (concat (rev ls))"
      using target D(5) S(4) by simp
    show ?thesis using run st' D(3,4) cc sameElsewhere_applyPending[OF D(2)] by blast
  qed
qed

subsection \<open>The stored levels are determined by their concatenation\<close>

lemma wfLevels_same_length:
  assumes w: "wfLevels ls" and w': "wfLevels ls'"
    and B: "length (concat ls) = length (concat ls')"
  shows "length ls = length ls'"
proof -
  have aux: False if a: "wfLevels xs" "wfLevels ys" "length (concat xs) = length (concat ys)"
    "length xs < length ys" for xs ys :: "bytes list"
  proof (cases xs)
    case Nil
    obtain T' where T': "length ys = Suc T'" using a(4) by (cases ys) auto
    have "128 * 2 ^ T' \<le> length (concat ys) + 112" using wfLevels_size[OF a(2) T'] by simp
    moreover have "(1::nat) \<le> 2 ^ T'" by simp
    moreover have "length (concat ys) = 0" using a(3) Nil by simp
    ultimately show False by linarith
  next
    case (Cons x xs')
    then obtain T where T: "length xs = Suc T" by simp
    obtain T' where T': "length ys = Suc T'" using a(4) by (cases ys) auto
    have lt: "Suc T \<le> T'" using a(4) T T' by simp
    have 1: "length (concat xs) + 128 \<le> 256 * 2 ^ T" using wfLevels_size[OF a(1) T] by simp
    have 2: "128 * 2 ^ T' \<le> length (concat ys) + 112" using wfLevels_size[OF a(2) T'] by simp
    have "(2::nat) ^ Suc T \<le> 2 ^ T'" using lt by (rule power_increasing) simp
    then have "(256::nat) * 2 ^ T \<le> 128 * 2 ^ T'" by simp
    then show False using 1 2 a(3) by linarith
  qed
  show ?thesis
    using aux[OF w w' B] aux[OF w' w B[symmetric]] by (meson linorder_neqE_nat)
qed

lemma wfLevels_unique:
  "wfLevels ls \<Longrightarrow> wfLevels ls' \<Longrightarrow> concat (rev ls) = concat (rev ls') \<Longrightarrow> ls = ls'"
proof (induction ls arbitrary: ls' rule: rev_induct)
  case Nil
  then have "length (concat ([]::bytes list)) = length (concat ls')"
    by (metis length_concat_rev)
  then have "length ([]::bytes list) = length ls'"
    using wfLevels_same_length[OF Nil(1,2)] by blast
  then show ?case by simp
next
  case (snoc d xs)
  have B: "length (concat (xs @ [d])) = length (concat ls')"
    using snoc.prems(3) by (metis length_concat_rev)
  have ll: "length (xs @ [d]) = length ls'" using wfLevels_same_length[OF snoc.prems(1,2) B] .
  then obtain xs' d' where ls': "ls' = xs' @ [d']" and lx: "length xs' = length xs"
    by (metis length_Suc_conv_rev length_append_singleton)
  have wx: "wfLevels xs" and od: "levelOk (length xs) d"
    using snoc.prems(1) by (simp_all add: wfLevels_snoc)
  have wx': "wfLevels xs'" and od': "levelOk (length xs) d'"
    using snoc.prems(2) ls' lx by (simp_all add: wfLevels_snoc)
  have eq: "d @ concat (rev xs) = d' @ concat (rev xs')" using snoc.prems(3) ls' by simp
  have tot: "length d + length (concat xs) = length d' + length (concat xs')"
    using eq by (metis length_append length_concat_rev)
  have dd: "length d = length d'"
  proof (cases xs)
    case Nil
    then have "xs' = []" using lx by simp
    then show ?thesis using tot Nil by simp
  next
    case (Cons y ys)
    then obtain T where T: "length xs = Suc T" by simp
    have T': "length xs' = Suc T" using lx T by simp
    have b: "128 * 2 ^ T \<le> length (concat xs) + 112" "length (concat xs) + 128 \<le> 256 * 2 ^ T"
      using wfLevels_size[OF wx T] by simp_all
    have b': "128 * 2 ^ T \<le> length (concat xs') + 112" "length (concat xs') + 128 \<le> 256 * 2 ^ T"
      using wfLevels_size[OF wx' T'] by simp_all
    have s: "length d = 128 * 2 ^ T \<or> length d = 256 * 2 ^ T" using od T by (simp add: levelOk_def)
    have s': "length d' = 128 * 2 ^ T \<or> length d' = 256 * 2 ^ T" using od' T by (simp add: levelOk_def)
    show ?thesis using s s' b b' tot by linarith
  qed
  then have "d = d'" "concat (rev xs) = concat (rev xs')" using eq by simp_all
  then have "xs = xs'" using snoc.IH[OF wx wx'] by simp
  then show ?case using ls' \<open>d = d'\<close> by simp
qed

lemma storedLevels_unique:
  "storedLevels b a ls \<Longrightarrow> storedLevels b a ls' \<Longrightarrow> wfLevels ls \<Longrightarrow> wfLevels ls' \<Longrightarrow> ls = ls'"
proof -
  assume st: "storedLevels b a ls" and st': "storedLevels b a ls'" and w: "wfLevels ls" and w': "wfLevels ls'"
  have len: "length ls = length ls'"
  proof (rule ccontr)
    assume ne: "length ls \<noteq> length ls'"
    have False if a: "storedLevels b a xs" "storedLevels b a ys" "length xs < length ys" for xs ys
    proof -
      have l: "length xs < 256" using a(2,3) by (simp add: storedLevels_def)
      have "bGet b (keyForLevel a (length xs)) = None" using storedLevels_get[OF a(1) l] by simp
      moreover have "bGet b (keyForLevel a (length xs)) = Some (ys ! length xs)"
        using storedLevels_get[OF a(2) l] a(3) by simp
      ultimately show False by simp
    qed
    then show False using st st' ne by (meson linorder_neqE_nat)
  qed
  show ?thesis
  proof (rule nth_equalityI[OF len])
    fix i assume i: "i < length ls"
    then have l: "i < 256" using st by (simp add: storedLevels_def)
    show "ls ! i = ls' ! i"
      using storedLevels_get[OF st l] storedLevels_get[OF st' l] i len by simp
  qed
qed

text \<open>Two buckets that store the same levels for the address and agree elsewhere are equal.\<close>

lemma bucket_eqI:
  assumes "storedLevels b a ls" "storedLevels b' a ls" "sameElsewhere b b' a"
  shows "b' = b"
proof (rule ext)
  fix k
  show "b' k = b k"
  proof (cases "\<exists>l<256. k = keyForLevel a l")
    case True
    then obtain l where l: "l < 256" "k = keyForLevel a l" by blast
    show ?thesis
      using storedLevels_get[OF assms(1) l(1)] storedLevels_get[OF assms(2) l(1)] l(2)
      by (simp add: bGet_def)
  next
    case False
    then show ?thesis using assms(3) by (auto simp: sameElsewhere_def)
  qed
qed

subsection \<open>The level invariants and the stored levels\<close>

lemma concat_replicate_Nil: "concat (replicate k []) = []"
  by (induction k) auto

lemma stored_levels_map:
  assumes st: "storedLevels b a ls"
  shows "map (levelData b a) [0..<256] = ls @ replicate (256 - length ls) []"
proof (rule nth_equalityI)
  have len: "length ls \<le> 256" using st by (simp add: storedLevels_def)
  then show "length (map (levelData b a) [0..<256]) = length (ls @ replicate (256 - length ls) [])"
    by simp
  fix i assume "i < length (map (levelData b a) [0..<256])"
  then have i: "i < 256" by simp
  have "map (levelData b a) [0..<256] ! i = levelData b a i" using i by simp
  also have "\<dots> = (if i < length ls then ls ! i else [])" using stored_levelData[OF st i] .
  also have "\<dots> = (ls @ replicate (256 - length ls) []) ! i"
    using i len by (simp add: nth_append)
  finally show "map (levelData b a) [0..<256] ! i = (ls @ replicate (256 - length ls) []) ! i" .
qed

lemma stored_logicalData: "storedLevels b a ls \<Longrightarrow> logicalData b a = concat (rev ls)"
  by (simp add: logicalData_def stored_levels_map concat_replicate_Nil)

lemma stored_totalEntries:
  assumes "storedLevels b a ls" "wfLevels ls"
  shows "16 * totalEntries b a = length (concat ls)"
proof -
  have "16 dvd length (concat ls)" using assms(2) by (rule wfLevels_dvd)
  then show ?thesis
    using stored_logicalData[OF assms(1)]
    by (simp add: totalEntries_def txEntrySize_def length_concat_rev)
qed

lemma stored_imp_invariants:
  assumes st: "storedLevels b a ls" and wf: "wfLevels ls"
  shows "levelInvariants b a"
proof -
  have len: "length ls \<le> 256" using st by (simp add: storedLevels_def)
  have ok: "levelOk l (ls ! l)" if "l < length ls" for l using wf that by (simp add: wfLevels_def)
  have E: "levelEntries b a l = (if l < length ls then length (ls ! l) div 16 else 0)" if "l < 256" for l
    using stored_levelData[OF st that] by (simp add: levelEntries_def txEntrySize_def)
  have pos: "0 < levelEntries b a l \<longleftrightarrow> l < length ls" if l: "l < 256" for l
  proof (cases "l < length ls")
    case True
    have "ls ! l \<noteq> []" using ok[OF True] by (rule levelOk_nonempty)
    moreover have "16 * (length (ls ! l) div 16) = length (ls ! l)" using ok[OF True] by (rule levelOk_div)
    ultimately have "0 < length (ls ! l) div 16" by (cases "length (ls ! l) div 16") auto
    then show ?thesis using E[OF l] True by simp
  next
    case False
    then show ?thesis using E[OF l] by simp
  qed
  have 1: "\<forall>L<256. case bGet b (keyForLevel a L) of None \<Rightarrow> True
               | Some d \<Rightarrow> d \<noteq> [] \<and> txEntrySize dvd length d"
  proof (intro allI impI)
    fix L :: nat assume L: "L < 256"
    show "case bGet b (keyForLevel a L) of None \<Rightarrow> True | Some d \<Rightarrow> d \<noteq> [] \<and> txEntrySize dvd length d"
      using storedLevels_get[OF st L] ok[of L]
      by (auto simp: txEntrySize_def dest: levelOk_nonempty levelOk_dvd)
  qed
  have 2: "levelEntries b a 0 \<le> maxEntries 0"
  proof (cases "0 < length ls")
    case True
    have "length (ls ! 0) \<le> 128" using ok[OF True] by (simp add: levelOk_def)
    then show ?thesis using E[of 0] True by (simp add: maxEntries_def level0MaxEntries_def)
  next
    case False
    then show ?thesis using E[of 0] by simp
  qed
  have 3: "\<forall>L<256. 1 \<le> L \<longrightarrow>
           levelEntries b a L = 0 \<or> levelEntries b a L = maxEntries L div 2
           \<or> levelEntries b a L = maxEntries L"
  proof (intro allI impI)
    fix L :: nat assume L: "L < 256" "1 \<le> L"
    show "levelEntries b a L = 0 \<or> levelEntries b a L = maxEntries L div 2
           \<or> levelEntries b a L = maxEntries L"
    proof (cases "L < length ls")
      case True
      have "length (ls ! L) = 16 * (4 * 2 ^ L) \<or> length (ls ! L) = 16 * (8 * 2 ^ L)"
        using ok[OF True] L(2) by (simp add: levelOk_def)
      then have "length (ls ! L) div 16 = 4 * 2 ^ L \<or> length (ls ! L) div 16 = 8 * 2 ^ L"
        by auto
      moreover have "maxEntries L div 2 = 4 * 2 ^ L" "maxEntries L = 8 * 2 ^ L"
        by (simp_all add: maxEntries_def level0MaxEntries_def)
      ultimately show ?thesis using E[OF L(1)] True by simp
    next
      case False
      then show ?thesis using E[OF L(1)] by simp
    qed
  qed
  have 4: "\<forall>L<256. \<forall>K<L. 0 < levelEntries b a L \<longrightarrow> 0 < levelEntries b a K"
  proof (intro allI impI)
    fix L K :: nat assume h: "L < 256" "K < L" "0 < levelEntries b a L"
    then have "L < length ls" using pos[of L] by simp
    then have "K < length ls" "K < 256" using h by simp_all
    then show "0 < levelEntries b a K" using pos[of K] by simp
  qed
  show ?thesis unfolding levelInvariants_def using 1 2 3 4 by blast
qed

lemma invariants_imp_stored:
  assumes inv: "levelInvariants b a"
  shows "\<exists>ls. storedLevels b a ls \<and> wfLevels ls"
proof -
  have i1: "\<forall>L<256. case bGet b (keyForLevel a L) of None \<Rightarrow> True
               | Some d \<Rightarrow> d \<noteq> [] \<and> txEntrySize dvd length d"
    and i3: "\<forall>L<256. 1 \<le> L \<longrightarrow>
           levelEntries b a L = 0 \<or> levelEntries b a L = maxEntries L div 2
           \<or> levelEntries b a L = maxEntries L"
    and i4: "\<forall>L<256. \<forall>K<L. 0 < levelEntries b a L \<longrightarrow> 0 < levelEntries b a K"
    using inv by (simp_all add: levelInvariants_def)
  have v: "d \<noteq> [] \<and> 16 dvd length d" if "L < 256" "bGet b (keyForLevel a L) = Some d" for L d
    using i1[rule_format, OF that(1)] that(2) by (simp add: txEntrySize_def)
  have e0: "levelEntries b a 0 \<le> 8"
    using inv by (simp add: levelInvariants_def maxEntries_def level0MaxEntries_def)
  have sz: "levelEntries b a L = 0 \<or> levelEntries b a L = 4 * 2 ^ L \<or> levelEntries b a L = 8 * 2 ^ L"
    if "L < 256" "1 \<le> L" for L
  proof -
    have "maxEntries L div 2 = 4 * 2 ^ L" "maxEntries L = 8 * 2 ^ L"
      by (simp_all add: maxEntries_def level0MaxEntries_def)
    then show ?thesis using i3[rule_format, OF that] by simp
  qed
  have gap: "0 < levelEntries b a K" if "L < 256" "K < L" "0 < levelEntries b a L" for L K
    using i4[rule_format, OF that] .
  have E: "16 * levelEntries b a L = length d \<and> 0 < levelEntries b a L"
    if "L < 256" "bGet b (keyForLevel a L) = Some d" for L d
  proof -
    have "d \<noteq> []" "16 dvd length d" using v[OF that] by simp_all
    then obtain k where k: "length d = 16 * k" by (auto elim: dvdE)
    then have "k \<noteq> 0" using \<open>d \<noteq> []\<close> by (cases k) auto
    then show ?thesis using k that(2) by (simp add: levelEntries_def levelData_def txEntrySize_def)
  qed
  have E0: "levelEntries b a L = 0" if "bGet b (keyForLevel a L) = None" for L
    using that by (simp add: levelEntries_def levelData_def)
  define P where "P l \<longleftrightarrow> l = 256 \<or> bGet b (keyForLevel a l) = None" for l
  define T where "T = (LEAST l. P l)"
  have "P 256" by (simp add: P_def)
  then have PT: "P T" and T256: "T \<le> 256" unfolding T_def by (rule LeastI, rule Least_le)
  have below: "bGet b (keyForLevel a l) \<noteq> None" if "l < T" for l
  proof -
    have "\<not> P l" using that unfolding T_def by (rule not_less_Least)
    then show ?thesis by (simp add: P_def)
  qed
  have above: "bGet b (keyForLevel a l) = None" if l: "T \<le> l" "l < 256" for l
  proof (rule ccontr)
    assume "bGet b (keyForLevel a l) \<noteq> None"
    then obtain d where d: "bGet b (keyForLevel a l) = Some d" by auto
    have T: "T < 256" "bGet b (keyForLevel a T) = None" using PT l by (auto simp: P_def)
    then have "T \<noteq> l" using d by auto
    then have "T < l" using l by simp
    moreover have "0 < levelEntries b a l" using E[OF l(2) d] by simp
    ultimately have "0 < levelEntries b a T" using gap[OF l(2)] by simp
    then show False using E0[OF T(2)] by simp
  qed
  let ?ls = "map (levelData b a) [0..<T]"
  have nth: "?ls ! l = levelData b a l" if "l < T" for l using that by simp
  have st: "storedLevels b a ?ls"
  proof (rule storedLevelsI)
    show "length ?ls \<le> 256" using T256 by simp
    fix l :: nat assume l: "l < 256"
    show "bGet b (keyForLevel a l) = (if l < length ?ls then Some (?ls ! l) else None)"
    proof (cases "l < T")
      case True
      then obtain d where "bGet b (keyForLevel a l) = Some d" using below by auto
      then show ?thesis using True by (simp add: levelData_def)
    next
      case False
      then show ?thesis using above l by simp
    qed
  qed
  have wf: "wfLevels ?ls"
    unfolding wfLevels_def
  proof (intro allI impI)
    fix l assume "l < length ?ls"
    then have l: "l < T" "l < 256" using T256 by simp_all
    obtain d where d: "bGet b (keyForLevel a l) = Some d" using below[OF l(1)] by auto
    have ld: "?ls ! l = d" using l(1) d by (simp add: levelData_def)
    have e: "16 * levelEntries b a l = length d" "0 < levelEntries b a l" using E[OF l(2) d] by simp_all
    show "levelOk l (?ls ! l)"
    proof (cases "l = 0")
      case True
      have "16 dvd length d" using e(1) by (metis dvd_triv_left)
      moreover have "0 < length d" using e by linarith
      moreover have "length d \<le> 128" using e e0 True by simp
      ultimately show ?thesis using True ld by (simp add: levelOk_def)
    next
      case False
      then have "levelEntries b a l = 4 * 2 ^ l \<or> levelEntries b a l = 8 * 2 ^ l"
        using sz[OF l(2)] e(2) by simp
      then show ?thesis using False e(1) ld by (auto simp: levelOk_def)
    qed
  qed
  show ?thesis using st wf by blast
qed

lemma wfLevels_bound:
  assumes wf: "wfLevels ls" and B: "length (concat ls) \<le> 16 * 2 ^ 32"
  shows "length ls \<le> 31"
proof (rule ccontr)
  assume "\<not> length ls \<le> 31"
  then obtain T where T: "length ls = Suc T" "31 \<le> T" by (cases "length ls") auto
  have "128 * 2 ^ T \<le> length (concat ls) + 112" using wfLevels_size[OF wf T(1)] by simp
  moreover have "(2::nat) ^ 31 \<le> 2 ^ T" using T(2) by (rule power_increasing) simp
  ultimately show False using B by simp
qed

subsection \<open>Appends and removals keep the level invariants\<close>

lemma stored_bound:
  assumes "storedLevels b a ls" "wfLevels ls" "totalEntries b a \<le> 2 ^ 32"
  shows "length ls \<le> 31"
proof -
  have "16 * totalEntries b a = length (concat ls)" using assms(1,2) by (rule stored_totalEntries)
  then have "length (concat ls) \<le> 16 * 2 ^ 32" using assms(3) by simp
  then show ?thesis using assms(2) by (intro wfLevels_bound)
qed

lemma put_invariants:
  assumes inv: "levelInvariants b a" and N: "totalEntries b a < 2 ^ 32"
  shows "\<exists>b'. dbPutAddrIndexEntry b a i t x = Some b' \<and> levelInvariants b' a
           \<and> logicalData b' a = logicalData b a @ serializeAddrIndexEntry i t x
           \<and> totalEntries b' a = Suc (totalEntries b a)
           \<and> sameElsewhere b b' a"
proof -
  obtain ls where st: "storedLevels b a ls" and wf: "wfLevels ls"
    using invariants_imp_stored[OF inv] by blast
  have "totalEntries b a \<le> 2 ^ 32" using N by linarith
  with st wf have "length ls \<le> 31" by (rule stored_bound)
  then have len: "length ls \<le> 55" by simp
  obtain ls' b' where p: "dbPutAddrIndexEntry b a i t x = Some b'" "storedLevels b' a ls'"
    "wfLevels ls'" "concat (rev ls') = concat (rev ls) @ serializeAddrIndexEntry i t x"
    "sameElsewhere b b' a"
    using put_stored[OF st wf len, of i t x] by blast
  have inv': "levelInvariants b' a" using p(2,3) by (rule stored_imp_invariants)
  have lg: "logicalData b' a = logicalData b a @ serializeAddrIndexEntry i t x"
    using p(4) stored_logicalData[OF st] stored_logicalData[OF p(2)] by simp
  have "16 * totalEntries b' a = length (concat (rev ls'))"
    using stored_totalEntries[OF p(2,3)] by (simp add: length_concat_rev)
  also have "\<dots> = length (concat ls) + 16" using p(4) by (simp add: length_concat_rev)
  also have "\<dots> = 16 * totalEntries b a + 16" using stored_totalEntries[OF st wf] by simp
  finally have "totalEntries b' a = Suc (totalEntries b a)" by simp
  then show ?thesis using p(1,5) inv' lg by blast
qed

lemma remove_invariants:
  assumes inv: "levelInvariants b a" and N: "totalEntries b a \<le> 2 ^ 32"
    and c0: "0 < count" and cN: "count \<le> int (totalEntries b a)"
  shows "\<exists>b'. dbRemoveAddrIndexEntries b a count = Some (Inr b') \<and> levelInvariants b' a
           \<and> logicalData b' a = take (16 * (totalEntries b a - nat count)) (logicalData b a)
           \<and> totalEntries b' a = totalEntries b a - nat count
           \<and> sameElsewhere b b' a"
proof -
  obtain ls where st: "storedLevels b a ls" and wf: "wfLevels ls"
    using invariants_imp_stored[OF inv] by blast
  have "length ls \<le> 31" using st wf N by (rule stored_bound)
  then have len: "length ls \<le> 55" by simp
  have tot: "16 * totalEntries b a = length (concat ls)" using st wf by (rule stored_totalEntries)
  have le: "nat count \<le> totalEntries b a" using cN by simp
  then have av: "16 * nat count \<le> length (concat ls)" using tot by simp
  obtain ls' b' where r: "dbRemoveAddrIndexEntries b a count = Some (Inr b')" "storedLevels b' a ls'"
    "wfLevels ls'"
    "concat (rev ls') = take (length (concat ls) - 16 * nat count) (concat (rev ls))"
    "sameElsewhere b b' a"
    using remove_stored[OF st wf len c0 av] by blast
  have inv': "levelInvariants b' a" using r(2,3) by (rule stored_imp_invariants)
  have n: "length (concat ls) - 16 * nat count = 16 * (totalEntries b a - nat count)"
    using tot by simp
  have lg: "logicalData b' a = take (16 * (totalEntries b a - nat count)) (logicalData b a)"
    using r(4) stored_logicalData[OF st] stored_logicalData[OF r(2)] n by simp
  have "16 * totalEntries b' a = length (concat (rev ls'))"
    using stored_totalEntries[OF r(2,3)] by (simp add: length_concat_rev)
  also have "\<dots> = 16 * (totalEntries b a - nat count)"
    using r(4) n tot by (simp add: length_concat_rev)
  finally have "totalEntries b' a = totalEntries b a - nat count" by simp
  then show ?thesis using r(1,5) inv' lg by blast
qed

lemma removeFromLevels_assert:
  assumes st: "storedLevels b a ls" and wf: "wfLevels ls" and len: "length ls \<le> 55"
    and n: "n = length ls - i" and i: "i \<le> length ls"
    and more: "length (concat (drop i ls)) < 16 * nat rem"
  shows "removeFromLevels b a count i rem p h = Some (Inl (ErrAssert a count))"
  using n i more
proof (induction n arbitrary: i rem p h)
  case 0
  then have i: "i = length ls" by simp
  have rem: "0 < rem" using 0 by simp
  have "i < 256" using i len by simp
  then have "bGet b (keyForLevel a i) = None" using storedLevels_get[OF st] i by simp
  then show ?case using rem by (subst removeFromLevels.simps) simp
next
  case (Suc n)
  then have il: "i < length ls" by simp
  let ?d = "ls ! i"
  have i256: "i < 256" using il len by simp
  have okd: "levelOk i ?d" using wf il by (simp add: wfLevels_def)
  have ne: "?d \<noteq> []" using okd by (rule levelOk_nonempty)
  have dv: "16 * (length ?d div 16) = length ?d" using okd by (rule levelOk_div)
  have ld: "slice (bGet b (keyForLevel a i)) = ?d"
    using storedLevels_get[OF st i256] il by simp
  have dr: "drop i ls = ?d # drop (Suc i) ls" using il by (simp add: Cons_nth_drop_Suc)
  have m: "(i + 1) mod 256 = Suc i" "Suc i mod 256 = Suc i" using i256 il len by simp_all
  have tot: "length ?d + length (concat (drop (Suc i) ls)) < 16 * nat rem"
    using Suc.prems(3) dr by simp
  then have rem: "0 < rem" by (cases "0 < rem") auto
  have ge: "int (length ?d div 16) \<le> rem" using tot dv rem by linarith
  have more': "length (concat (drop (Suc i) ls)) < 16 * nat (rem - int (length ?d div 16))"
    using tot dv rem ge by linarith
  have IH: "removeFromLevels b a count (Suc i) (rem - int (length ?d div 16)) (AList.update i [] p) i
              = Some (Inl (ErrAssert a count))"
    by (rule Suc.IH) (use Suc.prems il more' in auto)
  show ?case
    by (subst removeFromLevels.simps) (use rem ne ge IH in \<open>simp add: ld m txEntrySize_def\<close>)
qed

lemma remove_assert:
  assumes inv: "levelInvariants b a" and N: "totalEntries b a \<le> 2 ^ 32"
    and more: "int (totalEntries b a) < count"
  shows "dbRemoveAddrIndexEntries b a count = Some (Inl (ErrAssert a count))"
proof -
  obtain ls where st: "storedLevels b a ls" and wf: "wfLevels ls"
    using invariants_imp_stored[OF inv] by blast
  have "length ls \<le> 31" using st wf N by (rule stored_bound)
  then have len: "length ls \<le> 55" by simp
  have tot: "16 * totalEntries b a = length (concat ls)" using st wf by (rule stored_totalEntries)
  have c0: "\<not> count \<le> 0" using more by simp
  have "length (concat (drop 0 ls)) < 16 * nat count" using tot more by simp
  then have "removeFromLevels b a count 0 count [] 0 = Some (Inl (ErrAssert a count))"
    using st wf len by (intro removeFromLevels_assert[where ls = ls and n = "length ls"]) simp_all
  then show ?thesis using c0 by (simp add: dbRemoveAddrIndexEntries_def)
qed

lemma noEntries_stored: "noEntries b a \<Longrightarrow> storedLevels b a []"
  by (simp add: noEntries_def storedLevels_def)

lemma noEntries_invariants: "noEntries b a \<Longrightarrow> levelInvariants b a"
  by (intro stored_imp_invariants[where ls = "[]"] noEntries_stored wfLevels_Nil)

lemma noEntries_total: "noEntries b a \<Longrightarrow> totalEntries b a = 0"
  using stored_totalEntries[OF noEntries_stored wfLevels_Nil, of b a] by simp

lemma appends_invariants:
  "levelInvariants b a \<Longrightarrow> list_all isAppend ops \<Longrightarrow> totalEntries b a + length ops \<le> 2 ^ 32 \<Longrightarrow>
   \<exists>b'. applyOps b a ops = Some (Inr b') \<and> levelInvariants b' a
        \<and> logicalData b' a = logicalData b a @ concat (map entryBytes ops)
        \<and> totalEntries b' a = totalEntries b a + length ops
        \<and> sameElsewhere b b' a"
proof (induction ops arbitrary: b)
  case Nil
  then show ?case by (simp add: sameElsewhere_refl)
next
  case (Cons op ops)
  then obtain i t x where op: "op = Append i t x" by (cases op) auto
  have N: "totalEntries b a < 2 ^ 32" using Cons.prems(3) by simp
  obtain b1 where p: "dbPutAddrIndexEntry b a i t x = Some b1" "levelInvariants b1 a"
    "logicalData b1 a = logicalData b a @ serializeAddrIndexEntry i t x"
    "totalEntries b1 a = Suc (totalEntries b a)" "sameElsewhere b b1 a"
    using put_invariants[OF Cons.prems(1) N, of i t x] by blast
  have "\<exists>b'. applyOps b1 a ops = Some (Inr b') \<and> levelInvariants b' a
        \<and> logicalData b' a = logicalData b1 a @ concat (map entryBytes ops)
        \<and> totalEntries b' a = totalEntries b1 a + length ops
        \<and> sameElsewhere b1 b' a"
    by (rule Cons.IH) (use Cons.prems p in auto)
  then obtain b' where r: "applyOps b1 a ops = Some (Inr b')" "levelInvariants b' a"
    "logicalData b' a = logicalData b1 a @ concat (map entryBytes ops)"
    "totalEntries b' a = totalEntries b1 a + length ops" "sameElsewhere b1 b' a"
    by blast
  have "applyOps b a (op # ops) = Some (Inr b')" using op p(1) r(1) by simp
  moreover have "logicalData b' a = logicalData b a @ concat (map entryBytes (op # ops))"
    using r(3) p(3) op by simp
  moreover have "totalEntries b' a = totalEntries b a + length (op # ops)" using r(4) p(4) by simp
  moreover have "sameElsewhere b b' a" using p(5) r(5) by (rule sameElsewhere_trans)
  ultimately show ?case using r(2) by blast
qed

subsection \<open>Decoding what was stored\<close>

lemma Uint32_PutUint32: "Uint32 (PutUint32 v) = v"
  unfolding Uint32_def PutUint32_def
  apply simp
  apply (rule bit_word_eqI)
  subgoal for n
    apply (cases "n < 8"; cases "n < 16"; cases "n < 24")
    apply (auto simp add: bit_simps)
    done
  done

lemma deserialize_serialize:
  "deserializeAddrIndexEntry (serializeAddrIndexEntry i t x @ rest) f =
     (case f (PutUint32 i) of
        Inl err \<Rightarrow> Inl err
      | Inr h \<Rightarrow> Inr \<lparr>BlockRegion = \<lparr>Hash = h, Offset = word_of_int (TxStart t),
                                       Len = word_of_int (TxLen t)\<rparr>,
                     BlockIndex = x\<rparr>)"
  by (cases "f (PutUint32 i)")
    (simp_all add: deserializeAddrIndexEntry_def serializeAddrIndexEntry_def length_PutUint32
      Uint32_PutUint32 txEntrySize_def)

lemma entryBytes_appendOp:
  "entryBytes (appendOp e) = serializeAddrIndexEntry (fst e) (fst (snd e)) (snd (snd e))"
  by (cases e) (simp add: appendOp_def)

lemma length_entryBytes_appendOp [simp]: "length (entryBytes (appendOp e)) = 16"
  by (simp add: entryBytes_appendOp)

lemma isAppend_appendOp [simp]: "isAppend (appendOp e)"
  by (cases e) (simp add: appendOp_def)

lemma length_entries: "length (concat (map (\<lambda>e. entryBytes (appendOp e)) es)) = 16 * length es"
  by (induction es) simp_all

lemma drop_entries:
  "i < length es \<Longrightarrow>
   drop (16 * i) (concat (map (\<lambda>e. entryBytes (appendOp e)) es))
     = entryBytes (appendOp (es ! i)) @ concat (map (\<lambda>e. entryBytes (appendOp e)) (drop (Suc i) es))"
proof (induction es arbitrary: i)
  case Nil
  then show ?case by simp
next
  case (Cons e es)
  show ?case
  proof (cases i)
    case 0
    then show ?thesis by simp
  next
    case (Suc j)
    then have "j < length es" using Cons.prems by simp
    then show ?thesis using Cons.IH[of j] Suc by simp
  qed
qed

lemma decode_at:
  assumes i: "i < length es"
    and h: "\<forall>e\<in>set es. f (PutUint32 (fst e)) = Inr (hashOf (PutUint32 (fst e)))"
  shows "deserializeAddrIndexEntry (drop (16 * i) (concat (map (\<lambda>e. entryBytes (appendOp e)) es))) f
           = Inr (fetched hashOf (es ! i))"
proof -
  have m: "es ! i \<in> set es" using i by simp
  obtain bi t x where e: "es ! i = (bi, t, x)" by (cases "es ! i") auto
  have "f (PutUint32 bi) = Inr (hashOf (PutUint32 bi))" using h m e by force
  then show ?thesis
    unfolding drop_entries[OF i]
    by (simp add: entryBytes_appendOp e deserialize_serialize fetched_def)
qed

lemma offset_forward:
  "i < 2 ^ 28 \<Longrightarrow> unat (((0::32 word) + word_of_nat i) * word_of_nat txEntrySize) = 16 * i"
proof -
  assume i: "i < 2 ^ 28"
  have eq: "word_of_nat (16 * i) = ((0::32 word) + word_of_nat i) * word_of_nat txEntrySize"
    by (simp add: txEntrySize_def)
  have lt: "16 * i < 2 ^ LENGTH(32)" using i by simp
  show ?thesis using eq lt by (rule of_nat_inverse)
qed

lemma offset_reverse:
  assumes "i < N" "N \<le> 2 ^ 28"
  shows "unat (((word_of_nat N :: 32 word) - 0 - word_of_nat i - 1) * word_of_nat txEntrySize)
           = 16 * (N - 1 - i)"
proof -
  have "N - 1 - i + i + 1 = N" using assms by simp
  then have "(word_of_nat N :: 32 word) = word_of_nat (N - 1 - i) + word_of_nat i + 1"
    by (metis of_nat_add of_nat_1)
  then have eq: "word_of_nat (16 * (N - 1 - i))
               = ((word_of_nat N :: 32 word) - 0 - word_of_nat i - 1) * word_of_nat txEntrySize"
    by (simp add: txEntrySize_def)
  have lt: "16 * (N - 1 - i) < 2 ^ LENGTH(32)" using assms by simp
  show ?thesis using eq lt by (rule of_nat_inverse)
qed

lemma decode_forward:
  assumes N: "length es \<le> 2 ^ 28"
    and h: "\<forall>e\<in>set es. f (PutUint32 (fst e)) = Inr (hashOf (PutUint32 (fst e)))"
  shows "\<forall>i\<in>set js. i < length es \<Longrightarrow>
         decodeEntries a (concat (map (\<lambda>e. entryBytes (appendOp e)) es)) f False nE 0 js
           = Inr (map (\<lambda>i. fetched hashOf (es ! i)) js)"
proof (induction js)
  case Nil
  then show ?case by simp
next
  case (Cons i js)
  have i: "i < length es" using Cons.prems by simp
  then have "i < 2 ^ 28" using N by linarith
  then have off: "unat (((0::32 word) + word_of_nat i) * word_of_nat txEntrySize) = 16 * i"
    by (rule offset_forward)
  have le: "\<not> 16 * i > length (concat (map (\<lambda>e. entryBytes (appendOp e)) es))"
    using i by (simp add: length_entries)
  have IH: "decodeEntries a (concat (map (\<lambda>e. entryBytes (appendOp e)) es)) f False nE 0 js
           = Inr (map (\<lambda>i. fetched hashOf (es ! i)) js)"
    by (rule Cons.IH) (use Cons.prems in simp)
  show ?case
    using le by (simp only: decodeEntries.simps Let_def if_False off decode_at[OF i h] IH
        sum.case list.map)
qed

lemma decode_reverse:
  assumes N: "length es \<le> 2 ^ 28"
    and h: "\<forall>e\<in>set es. f (PutUint32 (fst e)) = Inr (hashOf (PutUint32 (fst e)))"
  shows "\<forall>i\<in>set js. i < length es \<Longrightarrow>
         decodeEntries a (concat (map (\<lambda>e. entryBytes (appendOp e)) es)) f True
             (word_of_nat (length es)) 0 js
           = Inr (map (\<lambda>i. fetched hashOf (es ! (length es - 1 - i))) js)"
proof (induction js)
  case Nil
  then show ?case by simp
next
  case (Cons i js)
  have i: "i < length es" using Cons.prems by simp
  have off: "unat (((word_of_nat (length es) :: 32 word) - 0 - word_of_nat i - 1)
               * word_of_nat txEntrySize) = 16 * (length es - 1 - i)"
    using i N by (rule offset_reverse)
  have i': "length es - 1 - i < length es" using i by simp
  have le: "\<not> 16 * (length es - 1 - i) > length (concat (map (\<lambda>e. entryBytes (appendOp e)) es))"
    by (simp add: length_entries)
  have IH: "decodeEntries a (concat (map (\<lambda>e. entryBytes (appendOp e)) es)) f True
             (word_of_nat (length es)) 0 js
           = Inr (map (\<lambda>i. fetched hashOf (es ! (length es - 1 - i))) js)"
    by (rule Cons.IH) (use Cons.prems in simp)
  show ?case
    using le by (simp only: decodeEntries.simps Let_def if_False if_True off decode_at[OF i' h] IH
        sum.case list.map)
qed

subsection \<open>Loading the levels of a fetch\<close>

lemma loadLevels_forward:
  assumes st: "storedLevels b a ls" and len: "length ls \<le> 255"
  shows "n = length ls - i \<Longrightarrow> i \<le> length ls \<Longrightarrow>
         loadLevels b a False limit i acc = Some (concat (rev (drop i ls)) @ acc)"
proof (induction n arbitrary: i acc)
  case 0
  then have i: "i = length ls" by simp
  then have "i < 256" using len by simp
  then have "bGet b (keyForLevel a i) = None" using storedLevels_get[OF st] i by simp
  then show ?case using i by (subst loadLevels.simps) simp
next
  case (Suc n)
  then have il: "i < length ls" by simp
  then have i256: "i < 256" using len by simp
  have g: "bGet b (keyForLevel a i) = Some (ls ! i)" using storedLevels_get[OF st i256] il by simp
  have m: "(i + 1) mod 256 = Suc i" using il len by simp
  have IH: "loadLevels b a False limit (Suc i) (ls ! i @ acc)
              = Some (concat (rev (drop (Suc i) ls)) @ ls ! i @ acc)"
    by (rule Suc.IH) (use Suc.prems il in simp_all)
  have dr: "drop i ls = ls ! i # drop (Suc i) ls" using il by (simp add: Cons_nth_drop_Suc)
  show ?case
    by (subst loadLevels.simps) (simp only: simp_thms if_True g option.case m IH dr rev.simps
        concat_append concat.simps append_Nil2 append_assoc)
qed

lemma loadLevels_reverse:
  assumes st: "storedLevels b a ls" and wf: "wfLevels ls" and len: "length ls \<le> 255"
    and lim: "int (length (concat ls)) \<le> limit"
  shows "n = length ls - i \<Longrightarrow> i \<le> length ls \<Longrightarrow>
         loadLevels b a True limit i (concat (rev (take i ls))) = Some (concat (rev ls))"
proof (induction n arbitrary: i)
  case 0
  then have i: "i = length ls" by simp
  then have "i < 256" using len by simp
  then have "bGet b (keyForLevel a i) = None" using storedLevels_get[OF st] i by simp
  then show ?case using i by (subst loadLevels.simps) simp
next
  case (Suc n)
  then have il: "i < length ls" by simp
  then have i256: "i < 256" using len by simp
  have g: "bGet b (keyForLevel a i) = Some (ls ! i)" using storedLevels_get[OF st i256] il by simp
  have m: "(i + 1) mod 256 = Suc i" using il len by simp
  have ne: "ls ! i \<noteq> []" using wf il by (intro levelOk_nonempty[of i]) (simp add: wfLevels_def)
  have sp: "ls = take i ls @ ls ! i # drop (Suc i) ls" using il by (rule id_take_nth_drop)
  have "length (concat ls) = length (concat (take i ls)) + length (ls ! i)
          + length (concat (drop (Suc i) ls))"
    by (subst sp) simp
  then have "length (concat (take i ls)) < length (concat ls)" using ne by simp
  then have lt: "int (length (concat (rev (take i ls)))) < limit"
    using lim by (simp add: length_concat_rev)
  have tk: "take (Suc i) ls = take i ls @ [ls ! i]" using il by (rule take_Suc_conv_app_nth)
  have "loadLevels b a True limit (Suc i) (concat (rev (take (Suc i) ls))) = Some (concat (rev ls))"
    by (rule Suc.IH) (use Suc.prems il in simp_all)
  then have IH: "loadLevels b a True limit (Suc i) (ls ! i @ concat (rev (take i ls)))
                   = Some (concat (rev ls))"
    by (simp add: tk)
  show ?case
    by (subst loadLevels.simps) (simp only: lt simp_thms if_True g option.case m IH)
qed

lemma fetch_everything:
  assumes st: "storedLevels b a ls" and wf: "wfLevels ls"
    and data: "concat (rev ls) = concat (map (\<lambda>e. entryBytes (appendOp e)) es)"
    and N1: "1 \<le> length es" and N: "length es \<le> 2 ^ 28"
    and h: "\<forall>e\<in>set es. f (PutUint32 (fst e)) = Inr (hashOf (PutUint32 (fst e)))"
  shows "dbFetchAddrIndexEntries b a 0 (word_of_nat (length es)) False f
           = Some (Inr (map (fetched hashOf) es, 0))"
    and "dbFetchAddrIndexEntries b a 0 (word_of_nat (length es)) True f
           = Some (Inr (rev (map (fetched hashOf) es), 0))"
proof -
  let ?N = "length es"
  let ?ser = "concat (map (\<lambda>e. entryBytes (appendOp e)) es)"
  have tot: "length (concat ls) = 16 * ?N"
    using data length_concat_rev[of ls] by (simp add: length_entries)
  then have "length (concat ls) \<le> 16 * 2 ^ 32" using N by simp
  then have "length ls \<le> 31" using wf by (intro wfLevels_bound)
  then have len: "length ls \<le> 255" by simp
  have lt32: "?N < 2 ^ LENGTH(32)" using N by simp
  have un: "unat (word_of_nat ?N :: 32 word) = ?N"
    using refl lt32 by (rule of_nat_inverse)
  have ui: "uint ((0::32 word) + word_of_nat ?N) = int ?N"
    using un by (simp add: uint_nat)
  have nz: "(word_of_nat ?N :: 32 word) \<noteq> 0"
    using un N1 by (metis unat_0 not_one_le_zero)
  have lim: "int (length (concat ls)) \<le> uint ((0::32 word) + word_of_nat ?N) * int txEntrySize"
    by (simp only: ui tot) (simp add: txEntrySize_def)
  have fw: "loadLevels b a False (uint ((0::32 word) + word_of_nat ?N) * int txEntrySize) 0 [] = Some ?ser"
    using loadLevels_forward[OF st len, of "length ls" 0 _ "[]"] data by simp
  have rv: "loadLevels b a True (uint ((0::32 word) + word_of_nat ?N) * int txEntrySize) 0 [] = Some ?ser"
    using loadLevels_reverse[OF st wf len lim, of "length ls" 0] data by simp
  have ne: "word_of_nat (length ?ser div txEntrySize) = (word_of_nat ?N :: 32 word)"
    by (simp add: length_entries txEntrySize_def)
  have ge: "\<not> (0::32 word) \<ge> word_of_nat ?N" using nz by simp
  have load: "(if (word_of_nat ?N :: 32 word) - 0 > word_of_nat ?N then word_of_nat ?N
               else word_of_nat ?N - 0) = (word_of_nat ?N :: 32 word)"
    by simp
  have idx: "\<forall>i\<in>set [0..<?N]. i < ?N" by simp
  have "map (\<lambda>i. fetched hashOf (es ! i)) [0..<?N] = map (fetched hashOf) es"
    by (rule nth_equalityI) simp_all
  then have df: "decodeEntries a ?ser f False (word_of_nat ?N) 0 [0..<?N]
                   = Inr (map (fetched hashOf) es)"
    using decode_forward[OF N h idx, of a "word_of_nat ?N"] by simp
  have "map (\<lambda>i. fetched hashOf (es ! (?N - 1 - i))) [0..<?N] = rev (map (fetched hashOf) es)"
    by (rule nth_equalityI) (simp_all add: rev_nth)
  then have dr: "decodeEntries a ?ser f True (word_of_nat ?N) 0 [0..<?N]
                   = Inr (rev (map (fetched hashOf) es))"
    using decode_reverse[OF N h idx, of a] by simp
  show "dbFetchAddrIndexEntries b a 0 (word_of_nat ?N) False f
           = Some (Inr (map (fetched hashOf) es, 0))"
    unfolding dbFetchAddrIndexEntries_def
    by (simp only: fw option.case Let_def ne ge if_False nz load un df sum.case)
  show "dbFetchAddrIndexEntries b a 0 (word_of_nat ?N) True f
           = Some (Inr (rev (map (fetched hashOf) es), 0))"
    unfolding dbFetchAddrIndexEntries_def
    by (simp only: rv option.case Let_def ne ge if_False nz load un dr sum.case)
qed

subsection \<open>The read offsets beyond 32 bits\<close>

lemma unat_times16: "unat (word_of_nat k * word_of_nat txEntrySize :: 32 word) = 16 * (k mod 2 ^ 28)"
proof -
  have "word_of_nat k * word_of_nat txEntrySize = (word_of_nat (16 * k) :: 32 word)"
    by (simp add: txEntrySize_def)
  then have "unat (word_of_nat k * word_of_nat txEntrySize :: 32 word) = (16 * k) mod 2 ^ 32"
    by (simp only: unat_of_nat) simp
  also have "(2::nat) ^ 32 = 16 * 2 ^ 28" by simp
  finally show ?thesis by (simp only: mult_mod_right)
qed

lemma offset_forward_wrap:
  "unat (((0::32 word) + word_of_nat i) * word_of_nat txEntrySize) = 16 * (i mod 2 ^ 28)"
  using unat_times16[of i] by simp

lemma offset_reverse_wrap:
  assumes "i < N"
  shows "unat (((word_of_nat N :: 32 word) - 0 - word_of_nat i - 1) * word_of_nat txEntrySize)
           = 16 * ((N - 1 - i) mod 2 ^ 28)"
proof -
  have "N - 1 - i + i + 1 = N" using assms by simp
  then have "(word_of_nat N :: 32 word) = word_of_nat (N - 1 - i) + word_of_nat i + 1"
    by (metis of_nat_add of_nat_1)
  then have "(word_of_nat N :: 32 word) - 0 - word_of_nat i - 1 = word_of_nat (N - 1 - i)"
    by simp
  then show ?thesis using unat_times16[of "N - 1 - i"] by simp
qed

lemma decode_forward_wrap:
  assumes h: "\<forall>e\<in>set es. f (PutUint32 (fst e)) = Inr (hashOf (PutUint32 (fst e)))"
  shows "\<forall>i\<in>set js. i < length es \<Longrightarrow>
         decodeEntries a (concat (map (\<lambda>e. entryBytes (appendOp e)) es)) f False nE 0 js
           = Inr (map (\<lambda>i. fetched hashOf (es ! (i mod 2 ^ 28))) js)"
proof (induction js)
  case Nil
  then show ?case by simp
next
  case (Cons i js)
  have i: "i < length es" using Cons.prems by simp
  have "i mod 2 ^ 28 \<le> i" by (rule mod_less_eq_dividend)
  then have i': "i mod 2 ^ 28 < length es" using i by linarith
  have off: "unat (((0::32 word) + word_of_nat i) * word_of_nat txEntrySize) = 16 * (i mod 2 ^ 28)"
    by (rule offset_forward_wrap)
  have le: "\<not> 16 * (i mod 2 ^ 28) > length (concat (map (\<lambda>e. entryBytes (appendOp e)) es))"
    using i' by (simp only: length_entries)
  have IH: "decodeEntries a (concat (map (\<lambda>e. entryBytes (appendOp e)) es)) f False nE 0 js
           = Inr (map (\<lambda>i. fetched hashOf (es ! (i mod 2 ^ 28))) js)"
    by (rule Cons.IH) (use Cons.prems in simp)
  show ?case
    using le by (simp only: decodeEntries.simps Let_def if_False off decode_at[OF i' h] IH
        sum.case list.map)
qed

lemma decode_reverse_wrap:
  assumes h: "\<forall>e\<in>set es. f (PutUint32 (fst e)) = Inr (hashOf (PutUint32 (fst e)))"
  shows "\<forall>i\<in>set js. i < length es \<Longrightarrow>
         decodeEntries a (concat (map (\<lambda>e. entryBytes (appendOp e)) es)) f True
             (word_of_nat (length es)) 0 js
           = Inr (map (\<lambda>i. fetched hashOf (es ! ((length es - 1 - i) mod 2 ^ 28))) js)"
proof (induction js)
  case Nil
  then show ?case by simp
next
  case (Cons i js)
  have i: "i < length es" using Cons.prems by simp
  have off: "unat (((word_of_nat (length es) :: 32 word) - 0 - word_of_nat i - 1)
               * word_of_nat txEntrySize) = 16 * ((length es - 1 - i) mod 2 ^ 28)"
    using i by (rule offset_reverse_wrap)
  have "(length es - 1 - i) mod 2 ^ 28 \<le> length es - 1 - i" by (rule mod_less_eq_dividend)
  then have i': "(length es - 1 - i) mod 2 ^ 28 < length es" using i by linarith
  have le: "\<not> 16 * ((length es - 1 - i) mod 2 ^ 28)
              > length (concat (map (\<lambda>e. entryBytes (appendOp e)) es))"
    using i' by (simp only: length_entries)
  have IH: "decodeEntries a (concat (map (\<lambda>e. entryBytes (appendOp e)) es)) f True
             (word_of_nat (length es)) 0 js
           = Inr (map (\<lambda>i. fetched hashOf (es ! ((length es - 1 - i) mod 2 ^ 28))) js)"
    by (rule Cons.IH) (use Cons.prems in simp)
  show ?case
    using le by (simp only: decodeEntries.simps Let_def if_False if_True off decode_at[OF i' h] IH
        sum.case list.map)
qed

lemma fetch_everything_wrap:
  assumes st: "storedLevels b a ls" and wf: "wfLevels ls"
    and data: "concat (rev ls) = concat (map (\<lambda>e. entryBytes (appendOp e)) es)"
    and N1: "1 \<le> length es" and N: "length es < 2 ^ 32"
    and h: "\<forall>e\<in>set es. f (PutUint32 (fst e)) = Inr (hashOf (PutUint32 (fst e)))"
  shows "dbFetchAddrIndexEntries b a 0 (word_of_nat (length es)) False f
           = Some (Inr (map (\<lambda>i. fetched hashOf (es ! (i mod 2 ^ 28))) [0..<length es], 0))"
    and "dbFetchAddrIndexEntries b a 0 (word_of_nat (length es)) True f
           = Some (Inr (map (\<lambda>i. fetched hashOf (es ! ((length es - 1 - i) mod 2 ^ 28)))
                          [0..<length es], 0))"
proof -
  let ?N = "length es"
  let ?ser = "concat (map (\<lambda>e. entryBytes (appendOp e)) es)"
  have tot: "length (concat ls) = 16 * ?N"
    using data length_concat_rev[of ls] by (simp add: length_entries)
  then have "length (concat ls) \<le> 16 * 2 ^ 32" using N by simp
  then have "length ls \<le> 31" using wf by (intro wfLevels_bound)
  then have len: "length ls \<le> 255" by simp
  have lt32: "?N < 2 ^ LENGTH(32)" using N by simp
  have un: "unat (word_of_nat ?N :: 32 word) = ?N"
    using refl lt32 by (rule of_nat_inverse)
  have ui: "uint ((0::32 word) + word_of_nat ?N) = int ?N"
    using un by (simp add: uint_nat)
  have nz: "(word_of_nat ?N :: 32 word) \<noteq> 0"
    using un N1 by (metis unat_0 not_one_le_zero)
  have lim: "int (length (concat ls)) \<le> uint ((0::32 word) + word_of_nat ?N) * int txEntrySize"
    by (simp only: ui tot) (simp add: txEntrySize_def)
  have fw: "loadLevels b a False (uint ((0::32 word) + word_of_nat ?N) * int txEntrySize) 0 [] = Some ?ser"
    using loadLevels_forward[OF st len, of "length ls" 0 _ "[]"] data by simp
  have rv: "loadLevels b a True (uint ((0::32 word) + word_of_nat ?N) * int txEntrySize) 0 [] = Some ?ser"
    using loadLevels_reverse[OF st wf len lim, of "length ls" 0] data by simp
  have ne: "word_of_nat (length ?ser div txEntrySize) = (word_of_nat ?N :: 32 word)"
    by (simp add: length_entries txEntrySize_def)
  have ge: "\<not> (0::32 word) \<ge> word_of_nat ?N" using nz by simp
  have load: "(if (word_of_nat ?N :: 32 word) - 0 > word_of_nat ?N then word_of_nat ?N
               else word_of_nat ?N - 0) = (word_of_nat ?N :: 32 word)"
    by simp
  have idx: "\<forall>i\<in>set [0..<?N]. i < ?N" by simp
  note df = decode_forward_wrap[OF h idx, of a "word_of_nat ?N"]
  note dr = decode_reverse_wrap[OF h idx, of a]
  show "dbFetchAddrIndexEntries b a 0 (word_of_nat ?N) False f
           = Some (Inr (map (\<lambda>i. fetched hashOf (es ! (i mod 2 ^ 28))) [0..<?N], 0))"
    unfolding dbFetchAddrIndexEntries_def
    by (simp only: fw option.case Let_def ne ge if_False nz load un df sum.case)
  show "dbFetchAddrIndexEntries b a 0 (word_of_nat ?N) True f
           = Some (Inr (map (\<lambda>i. fetched hashOf (es ! ((?N - 1 - i) mod 2 ^ 28))) [0..<?N], 0))"
    unfolding dbFetchAddrIndexEntries_def
    by (simp only: rv option.case Let_def ne ge if_False nz load un dr sum.case)
qed

lemma appends_stored:
  assumes e: "noEntries b a" and N: "length es \<le> 2 ^ 32"
  shows "\<exists>b' ls. applyOps b a (map appendOp es) = Some (Inr b') \<and> storedLevels b' a ls
           \<and> wfLevels ls
           \<and> concat (rev ls) = concat (map (\<lambda>e. entryBytes (appendOp e)) es)"
proof -
  have inv: "levelInvariants b a" using e by (rule noEntries_invariants)
  have t: "totalEntries b a = 0" using e by (rule noEntries_total)
  have l0: "logicalData b a = []"
    using stored_logicalData[OF noEntries_stored[OF e]] by simp
  have app: "list_all isAppend (map appendOp es)" by (simp add: list_all_iff)
  have bound: "totalEntries b a + length (map appendOp es) \<le> 2 ^ 32"
    using N t by simp
  obtain b' where r: "applyOps b a (map appendOp es) = Some (Inr b')" "levelInvariants b' a"
    "logicalData b' a = logicalData b a @ concat (map entryBytes (map appendOp es))"
    using appends_invariants[OF inv app bound] by blast
  obtain ls where st: "storedLevels b' a ls" and wf: "wfLevels ls"
    using invariants_imp_stored[OF r(2)] by blast
  have data: "concat (rev ls) = concat (map (\<lambda>e. entryBytes (appendOp e)) es)"
    using r(3) l0 stored_logicalData[OF st] by (simp add: comp_def)
  show ?thesis using r(1) st wf data by blast
qed

lemma seed_overflow:
  assumes M0: "M mod 2 ^ 28 = 0" and Mle: "M \<le> 2 ^ 28" and M1: "1 \<le> M"
  shows "fetchAfter (applyOps Map.empty seedAddr (map appendOp (map seedTriple [1..<M + 2])))
           seedAddr 0 (word_of_nat (M + 1)) False sameHash
         = Some (Inr (map (fetched id) (map seedTriple [1..<M + 1]) @ [fetched id (seedTriple 1)], 0))"
    and "fetchAfter (applyOps Map.empty seedAddr (map appendOp (map seedTriple [1..<M + 2])))
           seedAddr 0 (word_of_nat (M + 1)) True sameHash
         = Some (Inr (fetched id (seedTriple 1) # rev (map (fetched id) (map seedTriple [1..<M + 1])), 0))"
proof -
  note upt_Suc [simp del]
  let ?es = "map seedTriple [1..<M + 2]"
  have len: "length ?es = M + 1" by simp
  have e: "noEntries Map.empty seedAddr" by (simp add: noEntries_def bGet_def)
  have "M + 1 \<le> 2 ^ 28 + 1" using Mle by simp
  also have "\<dots> < (2::nat) ^ 32" by simp
  finally have lt: "length ?es < 2 ^ 32" by (simp only: len)
  then have le: "length ?es \<le> 2 ^ 32" by linarith
  have N1: "1 \<le> length ?es" by (simp only: len)
  have h: "\<forall>e\<in>set ?es. sameHash (PutUint32 (fst e)) = Inr (id (PutUint32 (fst e)))"
    by (simp add: sameHash_def)
  obtain b' ls where r: "applyOps Map.empty seedAddr (map appendOp ?es) = Some (Inr b')"
    "storedLevels b' seedAddr ls" "wfLevels ls"
    "concat (rev ls) = concat (map (\<lambda>e. entryBytes (appendOp e)) ?es)"
    using appends_stored[OF e le] by blast
  have small: "i mod 2 ^ 28 = i" if "i < M" for i using that Mle by simp
  have nth: "?es ! i = seedTriple (Suc i)" if "i \<le> M" for i
  proof -
    have "1 + i < M + 2" using that by simp
    then have u: "[1..<M + 2] ! i = 1 + i" by (rule nth_upt)
    have "i < length [1..<M + 2]" using that unfolding length_upt by simp
    then have "?es ! i = seedTriple ([1..<M + 2] ! i)" by (rule nth_map)
    then show ?thesis unfolding u by simp
  qed
  have f: "map (\<lambda>i. fetched id (?es ! (i mod 2 ^ 28))) [0..<length ?es]
             = map (fetched id) (map seedTriple [1..<M + 1]) @ [fetched id (seedTriple 1)]"
  proof (rule nth_equalityI)
    show "length (map (\<lambda>i. fetched id (?es ! (i mod 2 ^ 28))) [0..<length ?es])
            = length (map (fetched id) (map seedTriple [1..<M + 1]) @ [fetched id (seedTriple 1)])"
      by simp
  next
    fix k assume "k < length (map (\<lambda>i. fetched id (?es ! (i mod 2 ^ 28))) [0..<length ?es])"
    then have k: "k \<le> M" by simp
    show "map (\<lambda>i. fetched id (?es ! (i mod 2 ^ 28))) [0..<length ?es] ! k
            = (map (fetched id) (map seedTriple [1..<M + 1]) @ [fetched id (seedTriple 1)]) ! k"
    proof (cases "k = M")
      case True
      have "map (\<lambda>i. fetched id (?es ! (i mod 2 ^ 28))) [0..<length ?es] ! k
              = fetched id (?es ! (M mod 2 ^ 28))"
        using True unfolding len by simp
      also have "\<dots> = fetched id (seedTriple 1)" unfolding M0 nth[of 0] by simp
      finally show ?thesis using True by (simp add: nth_append)
    next
      case False
      then have kl: "k < M" using k by simp
      have "map (\<lambda>i. fetched id (?es ! (i mod 2 ^ 28))) [0..<length ?es] ! k
              = fetched id (?es ! (k mod 2 ^ 28))"
        using kl unfolding len by simp
      also have "\<dots> = fetched id (seedTriple (Suc k))"
        using kl by (simp only: small[OF kl] nth[OF k])
      finally show ?thesis using kl by (simp add: nth_append)
    qed
  qed
  have g: "map (\<lambda>i. fetched id (?es ! ((length ?es - 1 - i) mod 2 ^ 28))) [0..<length ?es]
             = fetched id (seedTriple 1) # rev (map (fetched id) (map seedTriple [1..<M + 1]))"
  proof (rule nth_equalityI)
    show "length (map (\<lambda>i. fetched id (?es ! ((length ?es - 1 - i) mod 2 ^ 28))) [0..<length ?es])
            = length (fetched id (seedTriple 1) # rev (map (fetched id) (map seedTriple [1..<M + 1])))"
      by simp
  next
    fix k assume "k < length (map (\<lambda>i. fetched id (?es ! ((length ?es - 1 - i) mod 2 ^ 28)))
                         [0..<length ?es])"
    then have k: "k \<le> M" by simp
    have at: "map (\<lambda>i. fetched id (?es ! ((length ?es - 1 - i) mod 2 ^ 28))) [0..<length ?es] ! k
              = fetched id (?es ! ((M - k) mod 2 ^ 28))"
      using k unfolding len by simp
    show "map (\<lambda>i. fetched id (?es ! ((length ?es - 1 - i) mod 2 ^ 28))) [0..<length ?es] ! k
            = (fetched id (seedTriple 1) # rev (map (fetched id) (map seedTriple [1..<M + 1]))) ! k"
    proof (cases k)
      case 0
      have "(M - k) mod 2 ^ 28 = 0" using 0 M0 by simp
      then have "fetched id (?es ! ((M - k) mod 2 ^ 28)) = fetched id (seedTriple 1)"
        using nth[of 0] by simp
      then show ?thesis using at 0 by simp
    next
      case (Suc j)
      then have jl: "j < M" and ml: "M - k < M" and mle: "M - k \<le> M" using k by simp_all
      have "fetched id (?es ! ((M - k) mod 2 ^ 28)) = fetched id (seedTriple (Suc (M - k)))"
        by (simp only: small[OF ml] nth[OF mle])
      moreover have "rev (map (fetched id) (map seedTriple [1..<M + 1])) ! j
                       = fetched id (seedTriple (Suc (M - k)))"
        using jl Suc by (simp add: rev_nth)
      ultimately show ?thesis using at Suc by simp
    qed
  qed
  show "fetchAfter (applyOps Map.empty seedAddr (map appendOp ?es))
           seedAddr 0 (word_of_nat (M + 1)) False sameHash
         = Some (Inr (map (fetched id) (map seedTriple [1..<M + 1]) @ [fetched id (seedTriple 1)], 0))"
    using fetch_everything_wrap(1)[OF r(2,3,4) N1 lt h, unfolded len f[unfolded len]]
    unfolding r(1) fetchAfter.simps .
  show "fetchAfter (applyOps Map.empty seedAddr (map appendOp ?es))
           seedAddr 0 (word_of_nat (M + 1)) True sameHash
         = Some (Inr (fetched id (seedTriple 1) # rev (map (fetched id) (map seedTriple [1..<M + 1])), 0))"
    using fetch_everything_wrap(2)[OF r(2,3,4) N1 lt h, unfolded len g[unfolded len]]
    unfolding r(1) fetchAfter.simps .
qed

subsection \<open>The decoded offsets stay inside the loaded bytes\<close>







subsection \<open>The level invariants under appends and removals\<close>

text \<open>
  C1 as stated fails: after the nine appends \<open>e1, ..., e9\<close> to an address without keys,
  level 1 holds 8 entries while level 0, which is below it, holds 1 entry and not its
  maximum of 8.
\<close>

theorem level_gap_counterexample:
  "entriesAfter (applyOps Map.empty seedAddr (map seedEntry [1..<10])) seedAddr 1 = Some 8
   \<and> entriesAfter (applyOps Map.empty seedAddr (map seedEntry [1..<10])) seedAddr 0 = Some 1
   \<and> maxEntries 0 = 8"
  by code_simp

text \<open>
  C1, amended: from a state of the address that satisfies \<open>levelInvariants\<close> (an address
  without keys does) and holds fewer than \<open>2 ^ 32\<close> entries, every sequence of appends and
  removals in which no removal asks for more entries than are stored then, and which
  keeps the number of entries below \<open>2 ^ 32\<close>, succeeds and leaves a state that satisfies
  \<open>levelInvariants\<close>: every stored level value is a non-empty sequence of whole entries,
  level 0 holds at most 8 entries, a level \<open>L \<ge> 1\<close> holds 0, \<open>8 * 2 ^ L div 2\<close> or
  \<open>8 * 2 ^ L\<close> entries, and below a level that holds entries no level is empty (such a
  level need not be full).
\<close>

theorem level_invariants_kept:
  "levelInvariants b a \<Longrightarrow> totalEntries b a < 2 ^ 32 \<Longrightarrow>
   countsOk (2 ^ 32) (totalEntries b a) ops \<Longrightarrow>
   \<exists>b'. applyOps b a ops = Some (Inr b') \<and> levelInvariants b' a"
proof (induction ops arbitrary: b)
  case Nil
  then show ?case by simp
next
  case (Cons op ops)
  have N: "totalEntries b a < 2 ^ 32" by (rule Cons.prems(2))
  then have N': "totalEntries b a \<le> 2 ^ 32" by linarith
  show ?case
  proof (cases op)
    case (Append i t x)
    have S: "Suc (totalEntries b a) < 2 ^ 32"
      and ok: "countsOk (2 ^ 32) (Suc (totalEntries b a)) ops"
      using Cons.prems(3) Append by simp_all
    obtain b1 where p: "dbPutAddrIndexEntry b a i t x = Some b1" "levelInvariants b1 a"
      "totalEntries b1 a = Suc (totalEntries b a)"
      using put_invariants[OF Cons.prems(1) N, of i t x] by blast
    have "\<exists>b'. applyOps b1 a ops = Some (Inr b') \<and> levelInvariants b' a"
      by (rule Cons.IH) (use p ok S in simp_all)
    then show ?thesis using Append p(1) by simp
  next
    case (Remove c)
    have cN: "c \<le> int (totalEntries b a)"
      and ok: "countsOk (2 ^ 32) (totalEntries b a - nat c) ops"
      using Cons.prems(3) Remove by simp_all
    show ?thesis
    proof (cases "c \<le> 0")
      case True
      then have r: "dbRemoveAddrIndexEntries b a c = Some (Inr b)"
        by (simp add: dbRemoveAddrIndexEntries_def)
      have "\<exists>b'. applyOps b a ops = Some (Inr b') \<and> levelInvariants b' a"
        by (rule Cons.IH) (use Cons.prems(1) N ok True in simp_all)
      then show ?thesis using Remove r by simp
    next
      case False
      then have c0: "0 < c" by simp
      obtain b1 where r: "dbRemoveAddrIndexEntries b a c = Some (Inr b1)" "levelInvariants b1 a"
        "totalEntries b1 a = totalEntries b a - nat c"
        using remove_invariants[OF Cons.prems(1) N' c0 cN] by blast
      have lt: "totalEntries b1 a < 2 ^ 32" using r(3) N by linarith
      have "\<exists>b'. applyOps b1 a ops = Some (Inr b') \<and> levelInvariants b' a"
        by (rule Cons.IH) (use r ok lt in simp_all)
      then show ?thesis using Remove r(1) by simp
    qed
  qed
qed

text \<open>
  The theorem at the nine appends \<open>e1, ..., e9\<close> followed by the removal of two entries,
  from the bucket without keys.
\<close>

theorem level_invariants_kept_witness:
  "levelInvariants Map.empty seedAddr \<and> totalEntries Map.empty seedAddr < 2 ^ 32
   \<and> countsOk (2 ^ 32) (totalEntries Map.empty seedAddr) (map seedEntry [1..<10] @ [Remove 2])
   \<and> (\<exists>b'. applyOps Map.empty seedAddr (map seedEntry [1..<10] @ [Remove 2]) = Some (Inr b')
          \<and> levelInvariants b' seedAddr)"
proof -
  have e: "noEntries Map.empty seedAddr" by (simp add: noEntries_def bGet_def)
  have h1: "levelInvariants Map.empty seedAddr" using e by (rule noEntries_invariants)
  have t: "totalEntries Map.empty seedAddr = 0" using e by (rule noEntries_total)
  have h2: "totalEntries Map.empty seedAddr < 2 ^ 32" by (simp add: t)
  have h3: "countsOk (2 ^ 32) (totalEntries Map.empty seedAddr) (map seedEntry [1..<10] @ [Remove 2])"
    by (simp add: t upt_rec seedEntry_def)
  show ?thesis using level_invariants_kept[OF h1 h2 h3] h1 h2 h3 by simp
qed

subsection \<open>Fetching what was appended\<close>

text \<open>
  Within the range of the \<open>uint32\<close> byte offsets the round trip holds: for every address
  without keys in the bucket and every \<open>N \<ge> 1\<close> entries \<open>e1, ..., eN\<close>, at most \<open>2 ^ 28\<close>,
  whose block IDs \<open>fetchBlockHash\<close> resolves, appending them with \<open>dbPutAddrIndexEntry\<close>
  succeeds, and then \<open>dbFetchAddrIndexEntries\<close> with skip 0 and want \<open>N\<close> returns exactly
  \<open>e1, ..., eN\<close> in insertion order when \<open>reverse\<close> is false and exactly \<open>eN, ..., e1\<close>
  when it is true, with 0 entries skipped.
\<close>

theorem fetch_round_trip:
  "noEntries b a \<Longrightarrow> 1 \<le> length es \<Longrightarrow> length es \<le> 2 ^ 28 \<Longrightarrow>
   (\<forall>e\<in>set es. fetchBlockHash (PutUint32 (fst e)) = Inr (hashOf (PutUint32 (fst e)))) \<Longrightarrow>
   \<exists>b'. applyOps b a (map appendOp es) = Some (Inr b')
        \<and> dbFetchAddrIndexEntries b' a 0 (word_of_nat (length es)) False fetchBlockHash
            = Some (Inr (map (fetched hashOf) es, 0))
        \<and> dbFetchAddrIndexEntries b' a 0 (word_of_nat (length es)) True fetchBlockHash
            = Some (Inr (rev (map (fetched hashOf) es), 0))"
proof -
  assume e: "noEntries b a" and N1: "1 \<le> length es" and N: "length es \<le> 2 ^ 28"
    and h: "\<forall>e\<in>set es. fetchBlockHash (PutUint32 (fst e)) = Inr (hashOf (PutUint32 (fst e)))"
  have inv: "levelInvariants b a" using e by (rule noEntries_invariants)
  have t: "totalEntries b a = 0" using e by (rule noEntries_total)
  have l0: "logicalData b a = []"
    using stored_logicalData[OF noEntries_stored[OF e]] by simp
  have app: "list_all isAppend (map appendOp es)" by (simp add: list_all_iff)
  have "(2::nat) ^ 28 \<le> 2 ^ 32" by simp
  then have bound: "totalEntries b a + length (map appendOp es) \<le> 2 ^ 32"
    using N t by simp
  obtain b' where r: "applyOps b a (map appendOp es) = Some (Inr b')" "levelInvariants b' a"
    "logicalData b' a = logicalData b a @ concat (map entryBytes (map appendOp es))"
    using appends_invariants[OF inv app bound] by blast
  obtain ls where st: "storedLevels b' a ls" and wf: "wfLevels ls"
    using invariants_imp_stored[OF r(2)] by blast
  have data: "concat (rev ls) = concat (map (\<lambda>e. entryBytes (appendOp e)) es)"
    using r(3) l0 stored_logicalData[OF st] by (simp add: comp_def)
  show ?thesis
    using r(1) fetch_everything(1)[OF st wf data N1 N h] fetch_everything(2)[OF st wf data N1 N h]
    by blast
qed

text \<open>
  The theorem at the nine entries \<open>e1, ..., e9\<close>, which fill level 0 and cascade into
  level 1, with every serialized block ID as its own hash.
\<close>

theorem fetch_round_trip_witness:
  "noEntries Map.empty seedAddr \<and> 1 \<le> length (map seedTriple [1..<10])
   \<and> length (map seedTriple [1..<10]) \<le> 2 ^ 28
   \<and> (\<exists>b'. applyOps Map.empty seedAddr (map appendOp (map seedTriple [1..<10])) = Some (Inr b')
        \<and> dbFetchAddrIndexEntries b' seedAddr 0 (word_of_nat (length (map seedTriple [1..<10])))
              False sameHash
            = Some (Inr (map (fetched id) (map seedTriple [1..<10]), 0))
        \<and> dbFetchAddrIndexEntries b' seedAddr 0 (word_of_nat (length (map seedTriple [1..<10])))
              True sameHash
            = Some (Inr (rev (map (fetched id) (map seedTriple [1..<10])), 0)))"
proof -
  let ?es = "map seedTriple [1..<10]"
  have h1: "noEntries Map.empty seedAddr" by (simp add: noEntries_def bGet_def)
  have h2: "1 \<le> length ?es" by simp
  have h3: "length ?es \<le> 2 ^ 28" by simp
  have h4: "\<forall>e\<in>set ?es. sameHash (PutUint32 (fst e)) = Inr (id (PutUint32 (fst e)))"
    by (simp add: sameHash_def)
  show ?thesis
    using fetch_round_trip[OF h1 h2 h3 h4] h1 h2 h3 by blast
qed

text \<open>
  C2: the round trip of \<open>N\<close> appended entries, at \<open>N = 2 ^ 28 + 1\<close>. After the appends
  of \<open>e1, ..., eN\<close> to an address without keys, the byte offset
  \<open>(numToSkip + i) * txEntrySize\<close> of the last entry is \<open>2 ^ 32\<close>, which is 0 in
  \<open>uint32\<close>. The fetch with skip 0 and want \<open>N\<close> returns \<open>e1, ..., e(N - 1)\<close> and then
  \<open>e1\<close> again, where \<open>eN\<close> is due; with \<open>reverse\<close> set it returns \<open>e1\<close> first, where
  \<open>eN\<close> is due, and then \<open>e(N - 1), ..., e1\<close>. The entries \<open>eN\<close> and \<open>e1\<close> differ.
\<close>

theorem fetch_offset_overflow:
  "fetchAfter (applyOps Map.empty seedAddr (map appendOp (map seedTriple [1..<2 ^ 28 + 2])))
       seedAddr 0 (2 ^ 28 + 1) False sameHash
     = Some (Inr (map (fetched id) (map seedTriple [1..<2 ^ 28 + 1]) @ [fetched id (seedTriple 1)], 0))
   \<and> fetchAfter (applyOps Map.empty seedAddr (map appendOp (map seedTriple [1..<2 ^ 28 + 2])))
       seedAddr 0 (2 ^ 28 + 1) True sameHash
     = Some (Inr (fetched id (seedTriple 1) # rev (map (fetched id) (map seedTriple [1..<2 ^ 28 + 1])), 0))
   \<and> fetched id (seedTriple (2 ^ 28 + 1)) \<noteq> fetched id (seedTriple 1)"
proof -
  have w: "word_of_nat (2 ^ 28 + 1) = (2 ^ 28 + 1 :: 32 word)" by simp
  have M0: "(2::nat) ^ 28 mod 2 ^ 28 = 0" by simp
  have Mle: "(2::nat) ^ 28 \<le> 2 ^ 28" by simp
  have M1: "1 \<le> (2::nat) ^ 28" by simp
  have "unat (word_of_nat (2 ^ 28 + 1) :: 32 word) = 2 ^ 28 + 1"
    by (rule of_nat_inverse[OF refl]) simp
  moreover have "unat (word_of_nat 1 :: 32 word) = 1" by simp
  ultimately have "(word_of_nat (2 ^ 28 + 1) :: 32 word) \<noteq> word_of_nat 1"
    by (metis add_cancel_left_left power_not_zero zero_neq_numeral)
  then have ne: "fetched id (seedTriple (2 ^ 28 + 1)) \<noteq> fetched id (seedTriple 1)"
    by (simp add: fetched_def seedTriple_def)
  show ?thesis
    using seed_overflow(1)[OF M0 Mle M1, unfolded w] seed_overflow(2)[OF M0 Mle M1, unfolded w] ne
    by (intro conjI)
qed

subsection \<open>Removing what was appended\<close>

text \<open>
  C3: from a state of the address that satisfies \<open>levelInvariants\<close>, appending any \<open>k\<close>
  entries and then removing \<open>k\<close> entries succeeds and gives back the bucket from before
  the appends, key for key, as long as the number of entries stays below \<open>2 ^ 32\<close>.
\<close>

theorem append_remove_restores:
  "levelInvariants b a \<Longrightarrow> list_all isAppend ops \<Longrightarrow> totalEntries b a + length ops < 2 ^ 32 \<Longrightarrow>
   applyOps b a (ops @ [Remove (int (length ops))]) = Some (Inr b)"
proof -
  assume inv: "levelInvariants b a" and app: "list_all isAppend ops"
    and N: "totalEntries b a + length ops < 2 ^ 32"
  have N': "totalEntries b a + length ops \<le> 2 ^ 32" using N by linarith
  obtain b1 where a: "applyOps b a ops = Some (Inr b1)" "levelInvariants b1 a"
    "logicalData b1 a = logicalData b a @ concat (map entryBytes ops)"
    "totalEntries b1 a = totalEntries b a + length ops" "sameElsewhere b b1 a"
    using appends_invariants[OF inv app N'] by blast
  have run: "applyOps b a (ops @ [Remove (int (length ops))])
               = dbRemoveAddrIndexEntries b1 a (int (length ops))"
    by (simp add: applyOps_append a(1) split: option.splits sum.splits)
  show ?thesis
  proof (cases "ops = []")
    case True
    then have "b1 = b" using a(1) by simp
    then show ?thesis using run True by (simp add: dbRemoveAddrIndexEntries_def)
  next
    case False
    then have c0: "0 < int (length ops)" by simp
    have cN: "int (length ops) \<le> int (totalEntries b1 a)" using a(4) by simp
    have N1: "totalEntries b1 a \<le> 2 ^ 32" using a(4) N' by simp
    obtain b2 where r: "dbRemoveAddrIndexEntries b1 a (int (length ops)) = Some (Inr b2)"
      "levelInvariants b2 a"
      "logicalData b2 a = take (16 * (totalEntries b1 a - nat (int (length ops)))) (logicalData b1 a)"
      "sameElsewhere b1 b2 a"
      using remove_invariants[OF a(2) N1 c0 cN] by blast
    obtain ls where st: "storedLevels b a ls" and wf: "wfLevels ls"
      using invariants_imp_stored[OF inv] by blast
    obtain ls2 where st2: "storedLevels b2 a ls2" and wf2: "wfLevels ls2"
      using invariants_imp_stored[OF r(2)] by blast
    have len: "length (logicalData b a) = 16 * totalEntries b a"
      using stored_logicalData[OF st] stored_totalEntries[OF st wf] by (simp add: length_concat_rev)
    have "logicalData b2 a = take (16 * totalEntries b a) (logicalData b a @ concat (map entryBytes ops))"
      using r(3) a(3,4) by simp
    also have "\<dots> = logicalData b a" using len by simp
    finally have "concat (rev ls2) = concat (rev ls)"
      using stored_logicalData[OF st] stored_logicalData[OF st2] by simp
    with wf2 wf have "ls2 = ls" by (rule wfLevels_unique)
    then have st2': "storedLevels b2 a ls" using st2 by simp
    have "sameElsewhere b b2 a" using a(5) r(4) by (rule sameElsewhere_trans)
    with st st2' have "b2 = b" by (rule bucket_eqI)
    then show ?thesis using run r(1) by simp
  qed
qed

text \<open>
  The theorem at a bucket whose level 0 holds \<open>e1\<close>: the nine appends \<open>e2, ..., e10\<close>
  cascade into level 1, and the removal of nine entries brings the bucket back.
\<close>

theorem append_remove_restores_witness:
  "levelInvariants (Map.empty(keyForLevel seedAddr 0 \<mapsto> seedBytes 1)) seedAddr
   \<and> list_all isAppend (map seedEntry [2..<11])
   \<and> totalEntries (Map.empty(keyForLevel seedAddr 0 \<mapsto> seedBytes 1)) seedAddr
        + length (map seedEntry [2..<11]) < 2 ^ 32
   \<and> applyOps (Map.empty(keyForLevel seedAddr 0 \<mapsto> seedBytes 1)) seedAddr
        (map seedEntry [2..<11] @ [Remove (int (length (map seedEntry [2..<11])))])
       = Some (Inr (Map.empty(keyForLevel seedAddr 0 \<mapsto> seedBytes 1)))"
proof -
  let ?b = "Map.empty(keyForLevel seedAddr 0 \<mapsto> seedBytes 1)"
  have l: "length (seedBytes n) = 16" for n by (simp add: seedBytes_def)
  have ne: "seedBytes n \<noteq> []" for n using l[of n] by auto
  have st: "storedLevels ?b seedAddr [seedBytes 1]"
    by (auto simp add: storedLevels_def bGet_def)
  have wf: "wfLevels [seedBytes 1]" by (simp add: wfLevels_def levelOk_def l ne)
  have h1: "levelInvariants ?b seedAddr" using st wf by (rule stored_imp_invariants)
  have "16 * totalEntries ?b seedAddr = length (concat [seedBytes 1])"
    using st wf by (rule stored_totalEntries)
  then have t: "totalEntries ?b seedAddr = 1" by (simp add: l)
  then have t': "totalEntries (Map.empty(keyForLevel seedAddr 0 \<mapsto> seedBytes (Suc 0))) seedAddr = Suc 0"
    by simp
  have h2: "list_all isAppend (map seedEntry [2..<11])" by (simp add: list_all_iff seedEntry_def)
  have h3: "totalEntries ?b seedAddr + length (map seedEntry [2..<11]) < 2 ^ 32" by (simp add: t t')
  show ?thesis using append_remove_restores[OF h1 h2 h3] h1 h2 h3 by simp
qed

subsection \<open>The append cascade\<close>

text \<open>
  C4: when level 0 is full (8 entries, 128 bytes), levels \<open>1, ..., L - 1\<close> are full and
  level \<open>L\<close> is the first level that is not, an append stores at level \<open>L\<close> its old bytes
  followed by the old bytes of level \<open>L - 1\<close>, stores at every level \<open>m\<close> with
  \<open>0 < m < L\<close> the old bytes of level \<open>m - 1\<close>, and leaves at level 0 exactly the new
  entry. In particular, after nine appends \<open>e1, ..., e9\<close> to an address without keys,
  level 0 holds \<open>e9\<close> and level 1 holds \<open>e1, ..., e8\<close>.
\<close>

theorem append_cascade:
  "(\<forall>b a L blockID txLoc blockIndex.
      length (levelData b a 0) = 128 \<and> 1 \<le> L \<and> L \<le> 55
      \<and> (\<forall>m. 0 < m \<and> m < L \<longrightarrow> length (levelData b a m) = 128 * 2 ^ m)
      \<and> length (levelData b a L) \<noteq> 128 * 2 ^ L
      \<longrightarrow> levelAfter (applyOp b a (Append blockID txLoc blockIndex)) a L
            = Some (levelData b a L @ levelData b a (L - 1))
          \<and> (\<forall>m. 0 < m \<and> m < L \<longrightarrow>
                levelAfter (applyOp b a (Append blockID txLoc blockIndex)) a m
                  = Some (levelData b a (m - 1)))
          \<and> levelAfter (applyOp b a (Append blockID txLoc blockIndex)) a 0
            = Some (serializeAddrIndexEntry blockID txLoc blockIndex))
   \<and> (\<forall>b a ops.
        noEntries b a \<and> length ops = 9 \<and> list_all isAppend ops
        \<longrightarrow> levelAfter (applyOps b a ops) a 0 = Some (entryBytes (ops ! 8))
            \<and> levelAfter (applyOps b a ops) a 1 = Some (concat (map entryBytes (take 8 ops))))"
proof -
  have general: "levelAfter (applyOp b a (Append blockID txLoc blockIndex)) a L
            = Some (levelData b a L @ levelData b a (L - 1))
          \<and> (\<forall>m. 0 < m \<and> m < L \<longrightarrow>
                levelAfter (applyOp b a (Append blockID txLoc blockIndex)) a m
                  = Some (levelData b a (m - 1)))
          \<and> levelAfter (applyOp b a (Append blockID txLoc blockIndex)) a 0
            = Some (serializeAddrIndexEntry blockID txLoc blockIndex)"
    if h: "length (levelData b a 0) = 128 \<and> 1 \<le> L \<and> L \<le> 55
      \<and> (\<forall>m. 0 < m \<and> m < L \<longrightarrow> length (levelData b a m) = 128 * 2 ^ m)
      \<and> length (levelData b a L) \<noteq> 128 * 2 ^ L"
    for b a L blockID txLoc blockIndex
  proof -
    from h have l0: "length (levelData b a 0) = 128" and L: "1 \<le> L" "L \<le> 55"
      and full: "\<forall>m. 0 < m \<and> m < L \<longrightarrow> length (levelData b a m) = 128 * 2 ^ m"
      and nonfull: "length (levelData b a L) \<noteq> 128 * 2 ^ L"
      by simp_all
    show ?thesis
      using cascade_levels(1)[OF l0 L full nonfull] cascade_levels(2)[OF l0 L full nonfull]
        cascade_levels(3)[OF l0 L full nonfull]
      by blast
  qed
  have nine: "levelAfter (applyOps b a ops) a 0 = Some (entryBytes (ops ! 8))
            \<and> levelAfter (applyOps b a ops) a 1 = Some (concat (map entryBytes (take 8 ops)))"
    if h: "noEntries b a \<and> length ops = 9 \<and> list_all isAppend ops" for b a ops
    using nine_appends(1)[of b a ops] nine_appends(2)[of b a ops] h by simp
  show ?thesis using general nine by blast
qed

text \<open>
  The theorem at the seed entries \<open>e1, ..., e9\<close> on an empty bucket, and at a bucket whose
  level 0 is full and whose level 1 has no key.
\<close>

theorem append_cascade_witness:
  "noEntries Map.empty seedAddr \<and> length (map seedEntry [1..<10]) = 9
   \<and> list_all isAppend (map seedEntry [1..<10])
   \<and> levelAfter (applyOps Map.empty seedAddr (map seedEntry [1..<10])) seedAddr 0 = Some (seedBytes 9)
   \<and> levelAfter (applyOps Map.empty seedAddr (map seedEntry [1..<10])) seedAddr 1
       = Some (concat (map seedBytes [1..<9]))
   \<and> length (levelData (Map.empty(keyForLevel seedAddr 0 \<mapsto> replicate 128 7)) seedAddr 0) = 128
   \<and> length (levelData (Map.empty(keyForLevel seedAddr 0 \<mapsto> replicate 128 7)) seedAddr 1) \<noteq> 128 * 2 ^ 1
   \<and> levelAfter (applyOp (Map.empty(keyForLevel seedAddr 0 \<mapsto> replicate 128 7)) seedAddr
                   (Append 1 \<lparr>TxStart = 9, TxLen = 1\<rparr> 9)) seedAddr 1
       = Some (replicate 128 7)"
proof -
  let ?ops = "map seedEntry [1..<10]"
  let ?b = "Map.empty(keyForLevel seedAddr 0 \<mapsto> replicate 128 (7::byte))"
  have h1: "noEntries Map.empty seedAddr" by (simp add: noEntries_def bGet_def)
  have h2: "length ?ops = 9" by simp
  have h3: "list_all isAppend ?ops" by (simp add: list_all_iff seedEntry_def)
  have c: "levelAfter (applyOps Map.empty seedAddr ?ops) seedAddr 0 = Some (entryBytes (?ops ! 8))
            \<and> levelAfter (applyOps Map.empty seedAddr ?ops) seedAddr 1 = Some (concat (map entryBytes (take 8 ?ops)))"
    using append_cascade[THEN conjunct2, rule_format, of Map.empty seedAddr ?ops] h1 h2 h3
    by (simp only: simp_thms)
  have e8: "entryBytes (?ops ! 8) = seedBytes 9"
    by (simp add: upt_rec seedEntry_def seedBytes_def)
  have e: "concat (map entryBytes (take 8 ?ops)) = concat (map seedBytes [1..<9])"
    by (simp add: upt_rec seedEntry_def seedBytes_def)
  have g1: "length (levelData ?b seedAddr 0) = 128" by (simp add: levelData_def bGet_def)
  have g2: "levelData ?b seedAddr 1 = []" by (simp add: levelData_def bGet_def)
  have g3: "\<forall>m. 0 < m \<and> m < (1::nat) \<longrightarrow> length (levelData ?b seedAddr m) = 128 * 2 ^ m" by simp
  have g4: "length (levelData ?b seedAddr 1) \<noteq> 128 * 2 ^ (1::nat)" by (simp only: g2) simp
  have g5: "(1::nat) \<le> 1 \<and> (1::nat) \<le> 55" by simp
  have "levelAfter (applyOp ?b seedAddr (Append 1 \<lparr>TxStart = 9, TxLen = 1\<rparr> 9)) seedAddr 1
       = Some (levelData ?b seedAddr 1 @ levelData ?b seedAddr (1 - 1))"
    using append_cascade[THEN conjunct1, rule_format, of ?b seedAddr 1 1 "\<lparr>TxStart = 9, TxLen = 1\<rparr>" 9]
      g1 g3 g4 g5
    by (simp only: simp_thms)
  then have g: "levelAfter (applyOp ?b seedAddr (Append 1 \<lparr>TxStart = 9, TxLen = 1\<rparr> 9)) seedAddr 1
       = Some (replicate 128 7)"
    by (simp add: g2) (simp add: levelData_def bGet_def)
  show ?thesis using h1 h2 h3 c e8 e g g1 g2 by simp
qed

subsection \<open>The fetch window in reverse order\<close>

text \<open>
  C5: the window of a fetch. With the two entries \<open>e1, e2\<close> stored, skip 1 and want
  \<open>2 ^ 32 - 1\<close>, the sum \<open>numToSkip + numRequested\<close> wraps to 0 in \<open>uint32\<close>: with \<open>reverse\<close>
  set the loading loop loads no level and the fetch returns no entries and 0 skipped,
  where 1 entry (\<open>e1\<close>) and 1 skipped are due; without \<open>reverse\<close> all levels are loaded
  and the same request returns \<open>e2\<close> and 1 skipped.
\<close>

theorem fetch_reverse_overflow:
  "entriesAfter (applyOps Map.empty seedAddr (map seedEntry [1..<3])) seedAddr 0 = Some 2
   \<and> fetchAfter (applyOps Map.empty seedAddr (map seedEntry [1..<3])) seedAddr
         1 4294967295 True sameHash
       = Some (Inr ([], 0))
   \<and> fetchAfter (applyOps Map.empty seedAddr (map seedEntry [1..<3])) seedAddr
         1 4294967295 False sameHash
       = Some (Inr ([fetched id (seedTriple 2)], 1))"
  by code_simp

subsection \<open>Removing more entries than are stored\<close>

text \<open>
  C6: from a state of the address that satisfies \<open>levelInvariants\<close> and holds at most
  \<open>2 ^ 32\<close> entries, and for every count \<open>> 0\<close>, \<open>dbRemoveAddrIndexEntries\<close> fails with the
  Assert error if and only if the count exceeds the number of entries stored for the
  address; when the count is at most that number, it succeeds.
\<close>

theorem remove_assert_iff:
  "levelInvariants b a \<Longrightarrow> totalEntries b a \<le> 2 ^ 32 \<Longrightarrow> 0 < count \<Longrightarrow>
   ((\<exists>k c. dbRemoveAddrIndexEntries b a count = Some (Inl (ErrAssert k c)))
       \<longleftrightarrow> int (totalEntries b a) < count)
   \<and> (int (totalEntries b a) < count
        \<longrightarrow> dbRemoveAddrIndexEntries b a count = Some (Inl (ErrAssert a count)))
   \<and> (count \<le> int (totalEntries b a)
        \<longrightarrow> (\<exists>b'. dbRemoveAddrIndexEntries b a count = Some (Inr b')))"
proof -
  assume inv: "levelInvariants b a" and N: "totalEntries b a \<le> 2 ^ 32" and c0: "0 < count"
  have fail: "dbRemoveAddrIndexEntries b a count = Some (Inl (ErrAssert a count))"
    if "int (totalEntries b a) < count"
    using inv N that by (rule remove_assert)
  have ok: "\<exists>b'. dbRemoveAddrIndexEntries b a count = Some (Inr b')"
    if "count \<le> int (totalEntries b a)"
    using remove_invariants[OF inv N c0 that] by blast
  have "int (totalEntries b a) < count"
    if "\<exists>k c. dbRemoveAddrIndexEntries b a count = Some (Inl (ErrAssert k c))"
  proof (rule ccontr)
    assume "\<not> int (totalEntries b a) < count"
    then have "count \<le> int (totalEntries b a)" by simp
    then obtain b' where "dbRemoveAddrIndexEntries b a count = Some (Inr b')" using ok by blast
    then show False using that by simp
  qed
  then show ?thesis using fail ok by blast
qed

text \<open>
  The theorem at a bucket whose level 0 holds \<open>e1\<close>: removing two entries fails with the
  Assert error, removing one succeeds.
\<close>

theorem remove_assert_iff_witness:
  "levelInvariants (Map.empty(keyForLevel seedAddr 0 \<mapsto> seedBytes 1)) seedAddr
   \<and> totalEntries (Map.empty(keyForLevel seedAddr 0 \<mapsto> seedBytes 1)) seedAddr \<le> 2 ^ 32
   \<and> (0::int) < 2 \<and> (0::int) < 1
   \<and> int (totalEntries (Map.empty(keyForLevel seedAddr 0 \<mapsto> seedBytes 1)) seedAddr) < 2
   \<and> 1 \<le> int (totalEntries (Map.empty(keyForLevel seedAddr 0 \<mapsto> seedBytes 1)) seedAddr)
   \<and> dbRemoveAddrIndexEntries (Map.empty(keyForLevel seedAddr 0 \<mapsto> seedBytes 1)) seedAddr 2
       = Some (Inl (ErrAssert seedAddr 2))
   \<and> (\<exists>b'. dbRemoveAddrIndexEntries (Map.empty(keyForLevel seedAddr 0 \<mapsto> seedBytes 1)) seedAddr 1
             = Some (Inr b'))"
proof -
  let ?b = "Map.empty(keyForLevel seedAddr 0 \<mapsto> seedBytes 1)"
  have l: "length (seedBytes n) = 16" for n by (simp add: seedBytes_def)
  have ne: "seedBytes n \<noteq> []" for n using l[of n] by auto
  have st: "storedLevels ?b seedAddr [seedBytes 1]"
    by (auto simp add: storedLevels_def bGet_def)
  have wf: "wfLevels [seedBytes 1]" by (simp add: wfLevels_def levelOk_def l ne)
  have h1: "levelInvariants ?b seedAddr" using st wf by (rule stored_imp_invariants)
  have "16 * totalEntries ?b seedAddr = length (concat [seedBytes 1])"
    using st wf by (rule stored_totalEntries)
  then have t: "totalEntries ?b seedAddr = 1" by (simp add: l)
  then have t': "totalEntries (Map.empty(keyForLevel seedAddr 0 \<mapsto> seedBytes (Suc 0))) seedAddr = Suc 0"
    by simp
  have h2: "totalEntries ?b seedAddr \<le> 2 ^ 32" by (simp add: t t')
  have a: "dbRemoveAddrIndexEntries ?b seedAddr 2 = Some (Inl (ErrAssert seedAddr 2))"
    using remove_assert_iff[OF h1 h2, of 2] by (simp add: t t')
  have s: "\<exists>b'. dbRemoveAddrIndexEntries ?b seedAddr 1 = Some (Inr b')"
    using remove_assert_iff[OF h1 h2, of 1] by (simp add: t t')
  show ?thesis using h1 h2 a s by (simp add: t t')
qed

subsection \<open>A level value that is not a whole number of entries\<close>





subsection \<open>The block indexer records a transaction once per address\<close>

lemma sorted_wrt_less_le_last:
  "sorted_wrt (<) xs \<Longrightarrow> x \<in> set xs \<Longrightarrow> (x::nat) \<le> last xs"
  by (induction xs) (auto simp: less_imp_le)

lemma ascendingBelow_mono: "ascendingBelow n data \<Longrightarrow> n \<le> m \<Longrightarrow> ascendingBelow m data"
  unfolding ascendingBelow_def by (meson order_trans)

lemma ascendingBelow_append:
  assumes a: "ascendingBelow n data"
    and nd: "\<not> (length (case data k of None \<Rightarrow> [] | Some txns \<Rightarrow> txns) > 0
                \<and> last (case data k of None \<Rightarrow> [] | Some txns \<Rightarrow> txns) = n)"
  shows "ascendingBelow n (data(k \<mapsto> (case data k of None \<Rightarrow> [] | Some txns \<Rightarrow> txns) @ [n]))"
proof (cases "data k")
  case None
  then show ?thesis using a by (auto simp: ascendingBelow_def)
next
  case (Some xs)
  have s: "sorted_wrt (<) xs" and le: "\<forall>x \<in> set xs. x \<le> n"
    using a Some by (auto simp: ascendingBelow_def)
  have lt: "x < n" if "x \<in> set xs" for x
  proof -
    have "xs \<noteq> []" using that by auto
    then have "last xs \<noteq> n" using nd Some by simp
    moreover have "last xs \<le> n" using le \<open>xs \<noteq> []\<close> by simp
    moreover have "x \<le> last xs" using s that by (rule sorted_wrt_less_le_last)
    ultimately show ?thesis by simp
  qed
  have "sorted_wrt (<) (xs @ [n])" using s lt by (simp add: sorted_wrt_append)
  then show ?thesis using a Some le by (auto simp: ascendingBelow_def)
qed

lemma indexAddrs_ascending:
  "ascendingBelow n data \<Longrightarrow> ascendingBelow n (indexAddrs data addrs n)"
proof (induction addrs arbitrary: data)
  case Nil
  then show ?case by simp
next
  case (Cons addr addrs)
  show ?case
  proof (cases "addrToKey addr")
    case (Inl err)
    then show ?thesis using Cons by simp
  next
    case (Inr k)
    show ?thesis
    proof (cases "length (case data k of None \<Rightarrow> [] | Some txns \<Rightarrow> txns) > 0
                \<and> last (case data k of None \<Rightarrow> [] | Some txns \<Rightarrow> txns) = n")
      case True
      then show ?thesis using Cons Inr by (simp add: Let_def)
    next
      case False
      have "ascendingBelow n (data(k \<mapsto> (case data k of None \<Rightarrow> [] | Some txns \<Rightarrow> txns) @ [n]))"
        using Cons.prems False by (rule ascendingBelow_append)
      then have "ascendingBelow n (indexAddrs (data(k \<mapsto> (case data k of None \<Rightarrow> [] | Some txns \<Rightarrow> txns) @ [n])) addrs n)"
        by (rule Cons.IH)
      then show ?thesis using False Inr by (auto simp: Let_def)
    qed
  qed
qed

lemma indexPkScript_ascending:
  "ascendingBelow n data \<Longrightarrow> ascendingBelow n (indexPkScript env data v s n isSStx te)"
  unfolding indexPkScript_def
  by (auto split: prod.splits sum.splits intro: indexAddrs_ascending)

lemma fold_preserves:
  "(\<And>x d. P d \<Longrightarrow> P (f x d)) \<Longrightarrow> P d \<Longrightarrow> P (fold f xs d)"
  by (induction xs arbitrary: d) auto

lemma indexInputs_ascending:
  "ascendingBelow n data \<Longrightarrow> ascendingBelow n (indexInputs env ps te n ins data)"
  unfolding indexInputs_def
  by (rule fold_preserves[where P = "ascendingBelow n"]) (auto split: option.splits intro: indexPkScript_ascending)

lemma indexOutputs_ascending:
  "ascendingBelow n data \<Longrightarrow> ascendingBelow n (indexOutputs env te n isSStx outs data)"
  unfolding indexOutputs_def
  by (rule fold_preserves[where P = "ascendingBelow n"]) (auto intro: indexPkScript_ascending)

lemma indexStakeInputs_ascending:
  "ascendingBelow n data \<Longrightarrow>
   ascendingBelow n (indexStakeInputs env ps te n isSSGen isTreasuryBase isTSpend ins data)"
  unfolding indexStakeInputs_def
  by (rule fold_preserves[where P = "ascendingBelow n"]) (auto split: option.splits prod.splits intro: indexPkScript_ascending)

lemma indexRegularTx_ascending:
  "ascendingBelow n data \<Longrightarrow> ascendingBelow n (indexRegularTx env ps te (n, tx) data)"
  unfolding indexRegularTx_def
  by (auto intro: indexOutputs_ascending indexInputs_ascending)

lemma indexStakeTx_ascending:
  "ascendingBelow (n + r) data \<Longrightarrow> ascendingBelow (n + r) (indexStakeTx env ps te r (n, tx) data)"
  unfolding indexStakeTx_def
  by (auto simp: Let_def intro: indexOutputs_ascending indexStakeInputs_ascending)

lemma regular_fold_ascending:
  "ascendingBelow n data \<Longrightarrow>
   ascendingBelow (n + length txs) (fold (indexRegularTx env ps te) (List.enumerate n txs) data)"
proof (induction txs arbitrary: n data)
  case Nil
  then show ?case by simp
next
  case (Cons tx txs)
  have "ascendingBelow n (indexRegularTx env ps te (n, tx) data)"
    using Cons.prems by (rule indexRegularTx_ascending)
  then have "ascendingBelow (Suc n) (indexRegularTx env ps te (n, tx) data)"
    by (rule ascendingBelow_mono) simp
  then have "ascendingBelow (Suc n + length txs)
      (fold (indexRegularTx env ps te) (List.enumerate (Suc n) txs)
         (indexRegularTx env ps te (n, tx) data))"
    by (rule Cons.IH)
  then show ?case by simp
qed

lemma stake_fold_ascending:
  "ascendingBelow (n + r) data \<Longrightarrow>
   ascendingBelow (n + length txs + r) (fold (indexStakeTx env ps te r) (List.enumerate n txs) data)"
proof (induction txs arbitrary: n data)
  case Nil
  then show ?case by simp
next
  case (Cons tx txs)
  have "ascendingBelow (n + r) (indexStakeTx env ps te r (n, tx) data)"
    using Cons.prems by (rule indexStakeTx_ascending)
  then have "ascendingBelow (Suc n + r) (indexStakeTx env ps te r (n, tx) data)"
    by (rule ascendingBelow_mono) simp
  then have "ascendingBelow (Suc n + length txs + r)
      (fold (indexStakeTx env ps te r) (List.enumerate (Suc n) txs)
         (indexStakeTx env ps te r (n, tx) data))"
    by (rule Cons.IH)
  then show ?case by simp
qed

lemma indexBlock_ascending:
  "ascendingBelow (length (Transactions block) + length (STransactions block))
     (indexBlock env Map.empty block ps te)"
proof -
  let ?r = "length (Transactions block)"
  have 0: "ascendingBelow 0 (Map.empty :: writeIndexData)" by (simp add: ascendingBelow_def)
  have "ascendingBelow (0 + ?r) (fold (indexRegularTx env ps te) (List.enumerate 0 (Transactions block)) Map.empty)"
    using 0 by (rule regular_fold_ascending)
  then have "ascendingBelow (0 + length (STransactions block) + ?r)
     (fold (indexStakeTx env ps te ?r) (List.enumerate 0 (STransactions block))
        (fold (indexRegularTx env ps te) (List.enumerate 0 (Transactions block)) Map.empty))"
    by (intro stake_fold_ascending) simp
  then show ?thesis by (simp add: indexBlock_def add.commute)
qed

text \<open>
  C8: for every block that \<open>indexBlock\<close> processes into an empty map, as both callers do,
  the list of every address key is strictly ascending, so no transaction index occurs
  twice in it.
\<close>

theorem indexBlock_no_duplicates:
  "indexBlock env Map.empty block prevScripts isTreasuryEnabled addrKey = Some txns
   \<Longrightarrow> distinct txns \<and> sorted_wrt (<) txns"
proof -
  assume h: "indexBlock env Map.empty block prevScripts isTreasuryEnabled addrKey = Some txns"
  have "sorted_wrt (<) txns"
    using indexBlock_ascending[of block env prevScripts isTreasuryEnabled] h
    by (auto simp: ascendingBelow_def)
  then show ?thesis by (simp add: strict_sorted_iff)
qed

theorem indexBlock_no_duplicates_witness:
  "indexBlock seedEnv Map.empty seedBlock Map.empty False (3 # replicate 20 1) = Some [0, 1, 2]
   \<and> distinct [0, 1, 2 :: nat] \<and> sorted_wrt (<) [0, 1, 2 :: nat]"
proof -
  have e: "indexBlock seedEnv Map.empty seedBlock Map.empty False (3 # replicate 20 1) = Some [0, 1, 2]"
    by code_simp
  show ?thesis using indexBlock_no_duplicates[OF e] e by simp
qed

subsection \<open>Removing no entries\<close>

text \<open>
  C9: for every address and every count \<open>\<le> 0\<close>, negative counts included,
  \<open>dbRemoveAddrIndexEntries\<close> returns success at once: the bucket it leaves is the
  bucket it was given, and no error is raised.
\<close>

theorem remove_nonpositive_count:
  "count \<le> 0 \<Longrightarrow> dbRemoveAddrIndexEntries b a count = Some (Inr b)"
  by (simp add: dbRemoveAddrIndexEntries_def)

theorem remove_nonpositive_count_witness:
  "(-3::int) \<le> 0 \<and> dbRemoveAddrIndexEntries Map.empty seedAddr (-3) = Some (Inr Map.empty)"
  using remove_nonpositive_count [of "-3" Map.empty seedAddr] by simp

subsection \<open>The two maps of the unconfirmed mirror agree\<close>

lemma fold_keeps:
  "(\<And>x d. P d \<Longrightarrow> P (f x d)) \<Longrightarrow> P d \<Longrightarrow> P (fold f xs d)"
  by (induction xs arbitrary: d) auto

lemma mapUnconfirmedAddrs_consistent:
  "mirrorConsistent idx \<Longrightarrow> mirrorConsistent (mapUnconfirmedAddrs idx addrs tx)"
proof (induction addrs arbitrary: idx)
  case Nil
  then show ?case by simp
next
  case (Cons addr addrs)
  show ?case
  proof (cases "addrToKey addr")
    case (Inl err)
    then show ?thesis using Cons by simp
  next
    case (Inr k)
    let ?idx = "\<lparr>txnsByAddr = (txnsByAddr idx)(k \<mapsto>
               (case txnsByAddr idx k of None \<Rightarrow> Map.empty | Some entry \<Rightarrow> entry)
                 (TxHash tx \<mapsto> tx)),
             addrsByTx = (addrsByTx idx)(TxHash tx \<mapsto>
               List.insert k
                 (case addrsByTx idx (TxHash tx) of None \<Rightarrow> [] | Some entry \<Rightarrow> entry))\<rparr>"
    have eq: "\<And>a h. hasTx idx a h = hasAddr idx h a"
      and ne: "\<And>a. txnsByAddr idx a \<noteq> Some Map.empty"
      using Cons.prems by (auto simp: mirrorConsistent_def)
    have t: "hasTx ?idx a h = ((a = k \<and> h = TxHash tx) \<or> hasTx idx a h)" for a h
      by (auto simp: hasTx_def split: option.splits)
    have s: "hasAddr ?idx h a = ((a = k \<and> h = TxHash tx) \<or> hasAddr idx h a)" for a h
      by (auto simp: hasAddr_def split: option.splits)
    have n: "txnsByAddr ?idx a \<noteq> Some Map.empty" for a
      using ne[of a] by auto
    have "mirrorConsistent ?idx"
      unfolding mirrorConsistent_def using t s n eq by blast
    then have "mirrorConsistent (mapUnconfirmedAddrs ?idx addrs tx)" by (rule Cons.IH)
    then show ?thesis using Inr by simp
  qed
qed

lemma indexUnconfirmedAddresses_consistent:
  "mirrorConsistent idx \<Longrightarrow>
   mirrorConsistent (indexUnconfirmedAddresses env idx v s tx isSStx te)"
  unfolding indexUnconfirmedAddresses_def
  by (auto split: prod.splits sum.splits intro: mapUnconfirmedAddrs_consistent)

lemma AddUnconfirmedTx_consistent:
  "mirrorConsistent idx \<Longrightarrow> mirrorConsistent (AddUnconfirmedTx env idx tx ps te)"
  unfolding AddUnconfirmedTx_def
  apply (rule fold_keeps[where P = mirrorConsistent])
   apply (rule indexUnconfirmedAddresses_consistent, assumption)
  apply (rule fold_keeps[where P = mirrorConsistent])
   apply (auto split: option.splits prod.splits intro: indexUnconfirmedAddresses_consistent)
  done

lemma fold_removeAddrReference:
  "fold (removeAddrReference h) s m a =
     (if a \<in> set s
      then (case m a of None \<Rightarrow> None
            | Some e \<Rightarrow> if e(h := None) = Map.empty then None else Some (e(h := None)))
      else m a)"
proof (induction s arbitrary: m)
  case Nil
  then show ?case by simp
next
  case (Cons x s)
  show ?case
    by (simp add: Cons.IH) (auto simp: removeAddrReference_def split: option.splits)
qed

lemma fun_upd_empty_other:
  "e(h := None) = Map.empty \<Longrightarrow> h' \<noteq> h \<Longrightarrow> e h' = None"
  by (drule fun_cong[where x = h']) simp

lemma RemoveUnconfirmedTx_consistent:
  assumes "mirrorConsistent idx"
  shows "mirrorConsistent (RemoveUnconfirmedTx idx h)"
proof -
  have eq: "\<And>a h. hasTx idx a h = hasAddr idx h a"
    and ne: "\<And>a. txnsByAddr idx a \<noteq> Some Map.empty"
    using assms by (auto simp: mirrorConsistent_def)
  let ?s = "case addrsByTx idx h of None \<Rightarrow> [] | Some entry \<Rightarrow> entry"
  have mem: "a \<in> set ?s \<longleftrightarrow> hasAddr idx h a" for a
    by (auto simp: hasAddr_def split: option.splits)
  have t: "hasTx (RemoveUnconfirmedTx idx h) a h' = (h' \<noteq> h \<and> hasTx idx a h')" for a h'
  proof (cases "a \<in> set ?s")
    case True
    then show ?thesis
      by (auto simp: RemoveUnconfirmedTx_def hasTx_def fold_removeAddrReference
          split: option.splits if_splits dest: fun_upd_empty_other)
  next
    case False
    then have "\<not> hasAddr idx h a" using mem[of a] by blast
    then have "\<not> hasTx idx a h" using eq[of a h] by blast
    then show ?thesis using False
      by (auto simp: RemoveUnconfirmedTx_def hasTx_def fold_removeAddrReference
          split: option.splits)
  qed
  have s: "hasAddr (RemoveUnconfirmedTx idx h) h' a = (h' \<noteq> h \<and> hasAddr idx h' a)" for a h'
    by (auto simp: RemoveUnconfirmedTx_def hasAddr_def split: option.splits)
  have n: "txnsByAddr (RemoveUnconfirmedTx idx h) a \<noteq> Some Map.empty" for a
    using ne[of a]
    by (auto simp: RemoveUnconfirmedTx_def fold_removeAddrReference split: option.splits if_splits)
  show ?thesis unfolding mirrorConsistent_def using t s n eq by blast
qed

lemma applyMirrorOps_consistent:
  "mirrorConsistent idx \<Longrightarrow> mirrorConsistent (applyMirrorOps env ops idx)"
  unfolding applyMirrorOps_def
proof (rule fold_keeps[where P = mirrorConsistent])
  fix op d
  assume "mirrorConsistent d"
  then show "mirrorConsistent (applyMirrorOp env op d)"
    by (cases op) (simp_all add: AddUnconfirmedTx_consistent RemoveUnconfirmedTx_consistent)
qed

text \<open>
  C10: after any sequence of \<open>AddUnconfirmedTx\<close> and \<open>RemoveUnconfirmedTx\<close> calls on the
  maps that \<open>NewAddrIndex\<close> creates, a transaction hash is a key of
  \<open>txnsByAddr[addrKey]\<close> exactly when \<open>addrKey\<close> is a member of \<open>addrsByTx[hash]\<close>, and
  no entry of \<open>txnsByAddr\<close> is an empty inner map.
\<close>

theorem unconfirmed_maps_consistent:
  "hasTx (applyMirrorOps env ops NewAddrIndex) addrKey hash
     = hasAddr (applyMirrorOps env ops NewAddrIndex) hash addrKey
   \<and> txnsByAddr (applyMirrorOps env ops NewAddrIndex) addrKey \<noteq> Some Map.empty"
proof -
  have "mirrorConsistent NewAddrIndex"
    by (simp add: mirrorConsistent_def NewAddrIndex_def hasTx_def hasAddr_def)
  then have "mirrorConsistent (applyMirrorOps env ops NewAddrIndex)"
    by (rule applyMirrorOps_consistent)
  then show ?thesis by (simp add: mirrorConsistent_def)
qed

end
